theory Spec2Isabelle
  imports Main "HOL-Library.Word" "HOL-Library.Sublist"
begin

unbundle bit_operations_syntax

section \<open>Server-side thread management (server\_module/thread.c)\<close>

text \<open>
  A shallow embedding of the wait engine, the APC queues and the thread lifecycle of
  \<^verbatim>\<open>src/server_module/thread.c\<close>. The file is the thread subsystem of a kernel-resident
  emulator server; the embedding follows the branches compiled under
  \<^verbatim>\<open>CONFIG_UNIFIED_KERNEL\<close> (the build of this module: \<^verbatim>\<open>send_thread_wakeup\<close> completes
  the thread's completion and \<^verbatim>\<open>select_on\<close> parks on it).

  Pointers are indices into stores: \<open>thr\<close> maps a \<^verbatim>\<open>struct thread *\<close> to the thread record,
  \<open>procs\<close> a \<^verbatim>\<open>struct process *\<close> to the fields of the process this file reads, \<open>apcs\<close> a
  \<^verbatim>\<open>struct thread_apc *\<close> to the APC record. Every other kind of object (mutex, event,
  semaphore, ...) lives in other files; it is an \<open>Other_obj\<close>, its private state is the
  component \<open>ext\<close> of the server state, and its operations are fields of the environment
  record \<open>env\<close>.
\<close>

subsection \<open>Constants of the protocol headers\<close>

text \<open>
  The headers that define these constants (ntstatus.h, winnt.h, server\_protocol.h) are not
  part of the sources at hand. Modelled from the spec: \<open>MAX_WAIT_OBJECTS = 64\<close> and
  \<open>MAX_SUSPEND = 127\<close>. The status codes and the select flags carry the values of the
  public NT headers and of the server protocol; no theorem below depends on the numbers
  beyond the codes being pairwise distinct and the flags being distinct bits.
\<close>

definition MAXIMUM_WAIT_OBJECTS :: nat where "MAXIMUM_WAIT_OBJECTS = 64"
definition MAXIMUM_SUSPEND_COUNT :: int where "MAXIMUM_SUSPEND_COUNT = 127"

definition STATUS_ABANDONED_WAIT_0 :: int where "STATUS_ABANDONED_WAIT_0 = 0x80"
definition STATUS_USER_APC :: int where "STATUS_USER_APC = 0xC0"
definition STATUS_TIMEOUT :: int where "STATUS_TIMEOUT = 0x102"
definition STATUS_PENDING :: int where "STATUS_PENDING = 0x103"
definition STATUS_INVALID_PARAMETER :: int where "STATUS_INVALID_PARAMETER = 0xC000000D"
definition STATUS_OBJECT_TYPE_MISMATCH :: int where "STATUS_OBJECT_TYPE_MISMATCH = 0xC0000024"
definition STATUS_SUSPEND_COUNT_EXCEEDED :: int where "STATUS_SUSPEND_COUNT_EXCEEDED = 0xC000004A"
definition STATUS_NO_MEMORY :: int where "STATUS_NO_MEMORY = 0xC0000017"
definition STATUS_INVALID_HANDLE :: int where "STATUS_INVALID_HANDLE = 0xC0000008"
definition STATUS_ACCESS_DENIED :: int where "STATUS_ACCESS_DENIED = 0xC0000022"
definition STATUS_THREAD_IS_TERMINATING :: int where "STATUS_THREAD_IS_TERMINATING = 0xC000004B"
definition STATUS_PROCESS_IS_TERMINATING :: int where "STATUS_PROCESS_IS_TERMINATING = 0xC000010A"

definition SELECT_ALL :: int where "SELECT_ALL = 1"
definition SELECT_ALERTABLE :: int where "SELECT_ALERTABLE = 2"
definition SELECT_INTERRUPTIBLE :: int where "SELECT_INTERRUPTIBLE = 4"

definition SYNCHRONIZE :: int where "SYNCHRONIZE = 0x00100000"

text \<open>\<^verbatim>\<open>timeout_t\<close> is a signed 64-bit integer: a word, compared through \<open>sint\<close>.\<close>

type_synonym timeout_t = "64 word"
type_synonym client_ptr_t = "64 word"
type_synonym obj_handle_t = nat

definition TIMEOUT_INFINITE :: timeout_t where "TIMEOUT_INFINITE = 0x7fffffffffffffff"

subsection \<open>Data model\<close>

datatype run_state = RUNNING | TERMINATED

datatype unix_signal = SIGUSR1 | SIGQUIT

text \<open>The APC types this file names; any other member of the enumeration is \<open>APC_OTHER\<close>.\<close>

datatype apc_type =
    APC_NONE | APC_USER | APC_TIMER | APC_ASYNC_IO
  | APC_VIRTUAL_ALLOC | APC_VIRTUAL_FREE | APC_VIRTUAL_QUERY | APC_VIRTUAL_PROTECT
  | APC_VIRTUAL_FLUSH | APC_VIRTUAL_LOCK | APC_VIRTUAL_UNLOCK
  | APC_MAP_VIEW | APC_UNMAP_VIEW | APC_CREATE_THREAD
  | APC_OTHER nat

datatype object = Thread_obj nat | Apc_obj nat | Other_obj nat

text \<open>\<^verbatim>\<open>apc_call_t\<close> and \<^verbatim>\<open>apc_result_t\<close>: the type tag and the rest of the union, opaque.\<close>

record apc_call_t =
  call_type :: apc_type
  call_args :: nat

record apc_result_t =
  result_type :: apc_type
  result_data :: nat

record thread_apc =
  caller :: "nat option"
  owner :: "object option"
  executed :: bool
  call :: apc_call_t
  result :: apc_result_t

text \<open>
  \<^verbatim>\<open>struct thread_wait\<close>. The \<^verbatim>\<open>next\<close> pointer is the tail of the thread's list of frames,
  \<^verbatim>\<open>thread\<close> is the thread that holds the list, \<^verbatim>\<open>count\<close> is the length of \<open>queues\<close>, and
  \<open>queues\<close> lists \<^verbatim>\<open>queues[i].obj\<close>.
\<close>

record thread_wait =
  flags :: int
  cookie :: client_ptr_t
  timeout :: timeout_t
  user :: "nat option"
  queues :: "object list"

text \<open>
  The node a wait-queue entry links into its object's \<^verbatim>\<open>wait_queue\<close>: the waiting thread,
  the depth of its frame (the number of frames below it) and the index in \<^verbatim>\<open>queues\<close>.
\<close>

record wait_queue_entry =
  e_thread :: nat
  e_level :: nat
  e_index :: nat

text \<open>The fields of \<^verbatim>\<open>struct thread\<close> that the modelled functions read or write.\<close>

record thread =
  process :: nat
  state :: run_state
  exit_code :: int
  exit_time :: timeout_t
  creation_time :: timeout_t
  priority :: int
  suspend :: int
  thread_context :: "nat option"
  wait :: "thread_wait list"
  system_apc :: "nat list"
  user_apc :: "nat list"
  completion :: nat
  wake_cookie :: client_ptr_t
  wake_signaled :: int

record process_t =
  proc_suspend :: int
  thread_list :: "nat list"
  startup_done :: bool
  is_terminating :: bool

record timeout_user =
  tu_id :: nat
  tu_when :: timeout_t
  tu_thread :: nat
  tu_level :: nat

text \<open>
  The server state. \<open>grabs\<close> counts, per object, \<^verbatim>\<open>grab_object\<close> calls minus
  \<^verbatim>\<open>release_object\<close> calls made by this file (the allocator itself is in object.c);
  \<open>signals\<close> and \<open>satisfied_calls\<close> log the calls of \<^verbatim>\<open>send_thread_signal\<close> and of the
  \<^verbatim>\<open>satisfied\<close> operation, in order.
\<close>

record 'x server =
  thr :: "nat \<Rightarrow> thread"
  procs :: "nat \<Rightarrow> process_t"
  apcs :: "nat \<Rightarrow> thread_apc"
  next_apc :: nat
  next_thread :: nat
  wait_queue :: "object \<Rightarrow> wait_queue_entry list"
  grabs :: "object \<Rightarrow> int"
  timers :: "timeout_user list"
  next_timer :: nat
  current_time :: timeout_t
  current_thread :: nat
  error :: int
  signals :: "(nat \<times> unix_signal) list"
  satisfied_calls :: "(object \<times> nat) list"
  ext :: 'x

text \<open>
  Operations that other files implement. \<open>obj_signaled\<close> and \<open>obj_satisfied\<close> are the
  \<^verbatim>\<open>signaled\<close> and \<^verbatim>\<open>satisfied\<close> slots of the objects defined elsewhere (a query and a
  mutator of the object's own state), \<open>obj_add_queue\<close> is \<open>None\<close> when such an object
  publishes \<^verbatim>\<open>add_queue\<close> and the status it sets when it refuses to be waited on,
  \<open>obj_signal\<close> is its \<^verbatim>\<open>signal\<close> slot.
  \<open>lookup_handle\<close> is the handle table behind \<^verbatim>\<open>get_handle_obj\<close> (an error status or the
  object), \<open>signal_accepted\<close> the result of \<^verbatim>\<open>send_thread_signal\<close>, \<open>alloc_ok\<close> whether
  the next allocation succeeds, \<open>alloc_handle\<close> is \<^verbatim>\<open>alloc_handle\<close> of the handle table
  (0 when it fails). \<open>collab\<close> stands for the other calls into other subsystems: those
  made while a thread dies or is created, \<^verbatim>\<open>close_handle\<close>, the transfer of the thread
  handle of an \<^verbatim>\<open>APC_CREATE_THREAD\<close> result to the caller's process, and
  \<^verbatim>\<open>async_set_result\<close>; the second argument is the thread on whose behalf the call is
  made. These may change any part of the server state.
\<close>

datatype collaborator =
    Kill_console_processes | Debug_exit_thread | Abandon_mutexes
  | Cleanup_clipboard_thread | Destroy_thread_windows | Free_msg_queue
  | Close_thread_desktop | Remove_process_thread | Add_process_thread
  | Close_handle obj_handle_t | Transfer_thread_handle nat | Async_set_result nat

record 'x env =
  obj_signaled :: "nat \<Rightarrow> nat \<Rightarrow> 'x \<Rightarrow> bool"
  obj_satisfied :: "nat \<Rightarrow> nat \<Rightarrow> 'x \<Rightarrow> bool \<times> 'x"
  obj_add_queue :: "nat \<Rightarrow> int option"
  obj_signal :: "nat \<Rightarrow> int \<Rightarrow> 'x server \<Rightarrow> bool \<times> 'x server"
  lookup_handle :: "nat \<Rightarrow> obj_handle_t \<Rightarrow> int \<Rightarrow> 'x \<Rightarrow> int + object"
  get_handle_access :: "nat \<Rightarrow> obj_handle_t \<Rightarrow> 'x \<Rightarrow> int"
  signal_accepted :: "nat \<Rightarrow> unix_signal \<Rightarrow> 'x \<Rightarrow> bool"
  alloc_ok :: "'x \<Rightarrow> bool"
  alloc_handle :: "nat \<Rightarrow> object \<Rightarrow> int \<Rightarrow> 'x server \<Rightarrow> obj_handle_t \<times> 'x server"
  collab :: "collaborator \<Rightarrow> nat \<Rightarrow> 'x server \<Rightarrow> 'x server"

subsection \<open>Small helpers\<close>

definition upd_thread :: "nat \<Rightarrow> (thread \<Rightarrow> thread) \<Rightarrow> 'x server \<Rightarrow> 'x server" where
  "upd_thread t f s = s\<lparr>thr := (thr s)(t := f (thr s t))\<rparr>"

definition upd_apc :: "nat \<Rightarrow> (thread_apc \<Rightarrow> thread_apc) \<Rightarrow> 'x server \<Rightarrow> 'x server" where
  "upd_apc a f s = s\<lparr>apcs := (apcs s)(a := f (apcs s a))\<rparr>"

definition set_error :: "int \<Rightarrow> 'x server \<Rightarrow> 'x server" where
  "set_error e s = s\<lparr>error := e\<rparr>"

definition grab_object :: "object \<Rightarrow> 'x server \<Rightarrow> 'x server" where
  "grab_object obj s = s\<lparr>grabs := (grabs s)(obj := grabs s obj + 1)\<rparr>"

definition release_object :: "object \<Rightarrow> 'x server \<Rightarrow> 'x server" where
  "release_object obj s = s\<lparr>grabs := (grabs s)(obj := grabs s obj - 1)\<rparr>"

definition send_thread_signal :: "'x env \<Rightarrow> nat \<Rightarrow> unix_signal \<Rightarrow> 'x server \<Rightarrow> bool \<times> 'x server" where
  "send_thread_signal env t sig s =
     (signal_accepted env t sig (ext s), s\<lparr>signals := signals s @ [(t, sig)]\<rparr>)"

text \<open>\<^verbatim>\<open>thread->process->suspend + thread->suspend > 0\<close>\<close>

definition is_suspended :: "'x server \<Rightarrow> nat \<Rightarrow> bool" where
  "is_suspended s t \<longleftrightarrow> proc_suspend (procs s (process (thr s t))) + suspend (thr s t) > 0"

subsection \<open>The object operations of threads and APCs\<close>

definition thread_signaled :: "thread \<Rightarrow> bool" where
  "thread_signaled mythread \<longleftrightarrow> state mythread = TERMINATED"

definition thread_apc_signaled :: "thread_apc \<Rightarrow> bool" where
  "thread_apc_signaled apc \<longleftrightarrow> executed apc"

text \<open>
  Modelled from the spec: \<^verbatim>\<open>no_satisfied\<close> (object.c), the default of the \<^verbatim>\<open>satisfied\<close>
  slot that both operation tables of this file install: it acquires nothing and never
  reports an abandoned object.
\<close>

definition no_satisfied :: bool where
  "no_satisfied = False"

text \<open>\<^verbatim>\<open>obj->ops->signaled( obj, thread )\<close>\<close>

definition ops_signaled :: "'x env \<Rightarrow> object \<Rightarrow> nat \<Rightarrow> 'x server \<Rightarrow> bool" where
  "ops_signaled env obj t s =
     (case obj of
        Thread_obj u \<Rightarrow> thread_signaled (thr s u)
      | Apc_obj a \<Rightarrow> thread_apc_signaled (apcs s a)
      | Other_obj n \<Rightarrow> obj_signaled env n t (ext s))"

text \<open>\<^verbatim>\<open>obj->ops->satisfied( obj, thread )\<close>; every call is logged.\<close>

definition ops_satisfied :: "'x env \<Rightarrow> object \<Rightarrow> nat \<Rightarrow> 'x server \<Rightarrow> bool \<times> 'x server" where
  "ops_satisfied env obj t s =
     (let s1 = s\<lparr>satisfied_calls := satisfied_calls s @ [(obj, t)]\<rparr> in
      case obj of
        Thread_obj u \<Rightarrow> (no_satisfied, s1)
      | Apc_obj a \<Rightarrow> (no_satisfied, s1)
      | Other_obj n \<Rightarrow>
          (case obj_satisfied env n t (ext s1) of (r, x) \<Rightarrow> (r, s1\<lparr>ext := x\<rparr>)))"

subsection \<open>check\_wait\<close>

text \<open>The first loop of the \<^verbatim>\<open>SELECT_ALL\<close> branch: \<^verbatim>\<open>not_ok |= !signaled\<close> over all entries.\<close>

fun all_not_ok :: "'x env \<Rightarrow> nat \<Rightarrow> object list \<Rightarrow> bool \<Rightarrow> 'x server \<Rightarrow> bool" where
  "all_not_ok env t [] not_ok s = not_ok"
| "all_not_ok env t (obj # objs) not_ok s =
     all_not_ok env t objs (not_ok \<or> \<not> ops_signaled env obj t s) s"

text \<open>The second loop: \<^verbatim>\<open>satisfied\<close> on every entry, \<^verbatim>\<open>signaled\<close> being the accumulator.\<close>

fun tell_all :: "'x env \<Rightarrow> nat \<Rightarrow> object list \<Rightarrow> int \<Rightarrow> 'x server \<Rightarrow> int \<times> 'x server" where
  "tell_all env t [] signaled s = (signaled, s)"
| "tell_all env t (obj # objs) signaled s =
     (case ops_satisfied env obj t s of
        (r, s1) \<Rightarrow> tell_all env t objs (if r then STATUS_ABANDONED_WAIT_0 else signaled) s1)"

text \<open>The loop of the other branch, from index \<open>i\<close>; \<open>None\<close> when it falls through.\<close>

fun scan_any :: "'x env \<Rightarrow> nat \<Rightarrow> nat \<Rightarrow> object list \<Rightarrow> 'x server \<Rightarrow> (int \<times> 'x server) option" where
  "scan_any env t i [] s = None"
| "scan_any env t i (obj # objs) s =
     (if \<not> ops_signaled env obj t s then scan_any env t (Suc i) objs s
      else (case ops_satisfied env obj t s of
              (r, s1) \<Rightarrow> Some (if r then int i + STATUS_ABANDONED_WAIT_0 else int i, s1)))"

text \<open>The label \<^verbatim>\<open>other_checks\<close>.\<close>

definition other_checks :: "nat \<Rightarrow> thread_wait \<Rightarrow> 'x server \<Rightarrow> int" where
  "other_checks t w s =
     (if flags w AND SELECT_ALERTABLE \<noteq> 0 \<and> user_apc (thr s t) \<noteq> [] then STATUS_USER_APC
      else if sint (timeout w) \<le> sint (current_time s) then STATUS_TIMEOUT
      else - 1)"

text \<open>\<open>None\<close> is the failure of \<^verbatim>\<open>assert( wait )\<close>.\<close>

definition check_wait :: "'x env \<Rightarrow> nat \<Rightarrow> 'x server \<Rightarrow> (int \<times> 'x server) option" where
  "check_wait env t s =
     (case wait (thr s t) of
        [] \<Rightarrow> None
      | w # ws \<Rightarrow>
          if flags w AND SELECT_INTERRUPTIBLE \<noteq> 0 \<and> system_apc (thr s t) \<noteq> []
          then Some (STATUS_USER_APC, s)
          else if is_suspended s t then Some (- 1, s)
          else if flags w AND SELECT_ALL \<noteq> 0 then
            (if all_not_ok env t (queues w) False s then Some (other_checks t w s, s)
             else Some (tell_all env t (queues w) 0 s))
          else
            (case scan_any env t 0 (queues w) s of
               Some r \<Rightarrow> Some r
             | None \<Rightarrow> Some (other_checks t w s, s)))"


subsection \<open>Properties of the loops of check\_wait\<close>


lemma ops_satisfied_calls:
  "satisfied_calls (snd (ops_satisfied env obj t s)) = satisfied_calls s @ [(obj, t)]"
  by (cases obj) (auto simp: ops_satisfied_def Let_def split: prod.splits)

lemma scan_any_first:
  "i < length objs \<Longrightarrow> ops_signaled env (objs ! i) t s \<Longrightarrow>
   (\<forall>j<i. \<not> ops_signaled env (objs ! j) t s) \<Longrightarrow>
   scan_any env t k objs s =
     Some (if fst (ops_satisfied env (objs ! i) t s)
           then int (k + i) + STATUS_ABANDONED_WAIT_0 else int (k + i),
           snd (ops_satisfied env (objs ! i) t s))"
proof (induction objs arbitrary: i k)
  case Nil
  then show ?case by simp
next
  case (Cons obj objs)
  show ?case
  proof (cases i)
    case 0
    with Cons.prems show ?thesis by (simp split: prod.splits)
  next
    case (Suc i')
    with Cons.prems have "\<not> ops_signaled env obj t s" by auto
    moreover have "scan_any env t (Suc k) objs s =
       Some (if fst (ops_satisfied env (objs ! i') t s)
           then int (Suc k + i') + STATUS_ABANDONED_WAIT_0 else int (Suc k + i'),
           snd (ops_satisfied env (objs ! i') t s))"
      using Cons.prems Suc by (intro Cons.IH) auto
    ultimately show ?thesis using Suc by simp
  qed
qed

lemma scan_any_None:
  "scan_any env t k objs s = None \<longleftrightarrow> (\<forall>obj\<in>set objs. \<not> ops_signaled env obj t s)"
  by (induction objs arbitrary: k) (auto split: prod.splits)


lemma scan_any_Some:
  "scan_any env t k objs s = Some (r, s') \<Longrightarrow>
   \<exists>i<length objs. ops_signaled env (objs ! i) t s \<and> (\<forall>j<i. \<not> ops_signaled env (objs ! j) t s) \<and>
      (r = int (k + i) \<or> r = int (k + i) + STATUS_ABANDONED_WAIT_0) \<and>
      s' = snd (ops_satisfied env (objs ! i) t s)"
proof (induction objs arbitrary: k)
  case Nil
  then show ?case by simp
next
  case (Cons obj objs)
  show ?case
  proof (cases "ops_signaled env obj t s")
    case True
    with Cons.prems show ?thesis
      by (intro exI[of _ 0]) (auto split: prod.splits if_splits)
  next
    case False
    with Cons.prems have "scan_any env t (Suc k) objs s = Some (r, s')" by simp
    from Cons.IH[OF this] obtain i where i: "i < length objs"
      "ops_signaled env (objs ! i) t s" "\<forall>j<i. \<not> ops_signaled env (objs ! j) t s"
      "r = int (Suc k + i) \<or> r = int (Suc k + i) + STATUS_ABANDONED_WAIT_0"
      "s' = snd (ops_satisfied env (objs ! i) t s)" by blast
    have "\<forall>j<Suc i. \<not> ops_signaled env ((obj # objs) ! j) t s"
      using False i(3) by (auto simp: less_Suc_eq_0_disj)
    with i show ?thesis
      by (intro exI[of _ "Suc i"]) auto
  qed
qed

text \<open>The return values of the successive \<^verbatim>\<open>satisfied\<close> calls on a list of objects, and
  the state they leave.\<close>

fun satisfied_results :: "'x env \<Rightarrow> nat \<Rightarrow> object list \<Rightarrow> 'x server \<Rightarrow> bool list" where
  "satisfied_results env t [] s = []"
| "satisfied_results env t (obj # objs) s =
     (case ops_satisfied env obj t s of (r, s1) \<Rightarrow> r # satisfied_results env t objs s1)"

fun satisfied_state :: "'x env \<Rightarrow> nat \<Rightarrow> object list \<Rightarrow> 'x server \<Rightarrow> 'x server" where
  "satisfied_state env t [] s = s"
| "satisfied_state env t (obj # objs) s =
     (case ops_satisfied env obj t s of (r, s1) \<Rightarrow> satisfied_state env t objs s1)"

lemma tell_all_eq:
  "tell_all env t objs sg s =
     (if True \<in> set (satisfied_results env t objs s) then STATUS_ABANDONED_WAIT_0 else sg,
      satisfied_state env t objs s)"
  by (induction objs arbitrary: sg s) (auto split: prod.splits)

lemma satisfied_state_calls:
  "satisfied_calls (satisfied_state env t objs s) = satisfied_calls s @ map (\<lambda>obj. (obj, t)) objs"
proof (induction objs arbitrary: s)
  case Nil
  show ?case by simp
next
  case (Cons obj objs)
  obtain r s1 where r: "ops_satisfied env obj t s = (r, s1)" by (cases "ops_satisfied env obj t s")
  have "satisfied_calls s1 = satisfied_calls s @ [(obj, t)]"
    using ops_satisfied_calls[of env obj t s] r by simp
  with Cons.IH[of s1] r show ?case by simp
qed

lemma all_not_ok_eq:
  "all_not_ok env t objs b s \<longleftrightarrow> b \<or> (\<exists>obj\<in>set objs. \<not> ops_signaled env obj t s)"
  by (induction objs arbitrary: b) auto

lemma other_checks_cases:
  "other_checks t w s = STATUS_USER_APC \<or> other_checks t w s = STATUS_TIMEOUT \<or> other_checks t w s = - 1"
  by (simp add: other_checks_def)

subsection \<open>Wait queues\<close>

text \<open>\<^verbatim>\<open>add_queue\<close>: always succeeds.\<close>

definition add_queue :: "object \<Rightarrow> wait_queue_entry \<Rightarrow> 'x server \<Rightarrow> bool \<times> 'x server" where
  "add_queue obj entry s =
     (let s1 = grab_object obj s
      in (True, s1\<lparr>wait_queue := (wait_queue s1)(obj := wait_queue s1 obj @ [entry])\<rparr>))"

definition remove_queue :: "object \<Rightarrow> wait_queue_entry \<Rightarrow> 'x server \<Rightarrow> 'x server" where
  "remove_queue obj entry s =
     release_object obj (s\<lparr>wait_queue := (wait_queue s)(obj := remove1 entry (wait_queue s obj))\<rparr>)"

text \<open>
  \<^verbatim>\<open>obj->ops->add_queue( obj, entry )\<close>. Threads and APCs install \<^verbatim>\<open>add_queue\<close>; an object
  of another file either does the same or refuses with the status \<open>obj_add_queue\<close> gives.
  \<^verbatim>\<open>obj->ops->remove_queue\<close> is \<^verbatim>\<open>remove_queue\<close> for every object that can be waited on.
\<close>

definition ops_add_queue :: "'x env \<Rightarrow> object \<Rightarrow> wait_queue_entry \<Rightarrow> 'x server \<Rightarrow> bool \<times> 'x server" where
  "ops_add_queue env obj entry s =
     (case obj of
        Other_obj n \<Rightarrow>
          (case obj_add_queue env n of
             None \<Rightarrow> add_queue obj entry s
           | Some e \<Rightarrow> (False, set_error e s))
      | _ \<Rightarrow> add_queue obj entry s)"

text \<open>Modelled from the spec: the timer service; \<open>cancel\<close> drops the timer if it is still
  installed, \<open>schedule\<close> installs one unless its allocation fails.\<close>

definition remove_timeout_user :: "nat \<Rightarrow> 'x server \<Rightarrow> 'x server" where
  "remove_timeout_user u s = s\<lparr>timers := filter (\<lambda>tu. tu_id tu \<noteq> u) (timers s)\<rparr>"

definition add_timeout_user :: "'x env \<Rightarrow> timeout_t \<Rightarrow> nat \<Rightarrow> nat \<Rightarrow> 'x server \<Rightarrow> nat option \<times> 'x server" where
  "add_timeout_user env when t lvl s =
     (if \<not> alloc_ok env (ext s) then (None, s)
      else (Some (next_timer s),
            s\<lparr>timers := timers s @ [\<lparr>tu_id = next_timer s, tu_when = when, tu_thread = t, tu_level = lvl\<rparr>],
              next_timer := Suc (next_timer s)\<rparr>))"

subsection \<open>end\_wait and wait\_on\<close>

text \<open>The loop of \<^verbatim>\<open>end_wait\<close> over the entries of the frame, from index \<open>i\<close>.\<close>

fun remove_entries :: "nat \<Rightarrow> nat \<Rightarrow> nat \<Rightarrow> object list \<Rightarrow> 'x server \<Rightarrow> 'x server" where
  "remove_entries t lvl i [] s = s"
| "remove_entries t lvl i (obj # objs) s =
     remove_entries t lvl (Suc i) objs
       (remove_queue obj \<lparr>e_thread = t, e_level = lvl, e_index = i\<rparr> s)"

text \<open>\<open>None\<close> is the failure of \<^verbatim>\<open>assert( wait )\<close>.\<close>

definition end_wait :: "nat \<Rightarrow> 'x server \<Rightarrow> 'x server option" where
  "end_wait t s =
     (case wait (thr s t) of
        [] \<Rightarrow> None
      | w # ws \<Rightarrow>
          (let s1 = upd_thread t (\<lambda>th. th\<lparr>wait := ws\<rparr>) s;
               s2 = remove_entries t (length ws) 0 (queues w) s1
           in Some (case user w of None \<Rightarrow> s2 | Some u \<Rightarrow> remove_timeout_user u s2)))"

text \<open>The loop of \<^verbatim>\<open>wait_on\<close>; \<open>Some i\<close> when \<^verbatim>\<open>add_queue\<close> fails on entry \<open>i\<close>.\<close>

fun add_entries :: "'x env \<Rightarrow> nat \<Rightarrow> nat \<Rightarrow> nat \<Rightarrow> object list \<Rightarrow> 'x server \<Rightarrow> nat option \<times> 'x server" where
  "add_entries env t lvl i [] s = (None, s)"
| "add_entries env t lvl i (obj # objs) s =
     (case ops_add_queue env obj \<lparr>e_thread = t, e_level = lvl, e_index = i\<rparr> s of
        (False, s1) \<Rightarrow> (Some i, s1)
      | (True, s1) \<Rightarrow> add_entries env t lvl (Suc i) objs s1)"

text \<open>
  \<^verbatim>\<open>wait_on\<close>. The frame comes from \<^verbatim>\<open>mem_alloc\<close> (which sets \<^verbatim>\<open>STATUS_NO_MEMORY\<close> when it
  fails); its cookie is not initialised here and is written as 0. When an \<^verbatim>\<open>add_queue\<close>
  fails at entry \<open>i\<close>, \<^verbatim>\<open>wait->count = i\<close> cuts the frame to the entries already queued.
\<close>

definition wait_on :: "'x env \<Rightarrow> nat \<Rightarrow> object list \<Rightarrow> int \<Rightarrow> timeout_t \<Rightarrow> 'x server \<Rightarrow> bool \<times> 'x server" where
  "wait_on env count objects flgs tmo s =
     (if \<not> alloc_ok env (ext s) then (False, set_error STATUS_NO_MEMORY s)
      else
        let t = current_thread s;
            lvl = length (wait (thr s t));
            w = \<lparr>flags = flgs, cookie = 0, timeout = tmo, user = None, queues = take count objects\<rparr>;
            s1 = upd_thread t (\<lambda>th. th\<lparr>wait := w # wait th\<rparr>) s
        in case add_entries env t lvl 0 (take count objects) s1 of
             (None, s2) \<Rightarrow> (True, s2)
           | (Some i, s2) \<Rightarrow>
               (let s3 = upd_thread t (\<lambda>th. th\<lparr>wait :=
                            (case wait th of [] \<Rightarrow> [] | w' # ws \<Rightarrow> w'\<lparr>queues := take i (queues w')\<rparr> # ws)\<rparr>) s2
                in case end_wait t s3 of Some s4 \<Rightarrow> (False, s4) | None \<Rightarrow> (False, s3)))"

subsection \<open>Waking a thread\<close>

text \<open>\<^verbatim>\<open>send_thread_wakeup\<close>: completes the thread's completion and stores the wake-up.\<close>

definition send_thread_wakeup :: "nat \<Rightarrow> client_ptr_t \<Rightarrow> int \<Rightarrow> 'x server \<Rightarrow> int \<times> 'x server" where
  "send_thread_wakeup t ck signaled s =
     (0, upd_thread t (\<lambda>th. th\<lparr>completion := Suc (completion th), wake_cookie := ck,
                               wake_signaled := signaled\<rparr>) s)"

lemma thr_ops_satisfied: "ops_satisfied env obj t s = (r, s') \<Longrightarrow> thr s' = thr s"
  by (cases obj) (auto simp: ops_satisfied_def Let_def split: prod.splits)

lemma thr_tell_all: "tell_all env t objs sg s = (r, s') \<Longrightarrow> thr s' = thr s"
proof (induction objs arbitrary: sg s)
  case Nil
  then show ?case by simp
next
  case (Cons obj objs)
  obtain b s1 where b: "ops_satisfied env obj t s = (b, s1)" by (cases "ops_satisfied env obj t s")
  then have "thr s1 = thr s" by (rule thr_ops_satisfied)
  moreover have "thr s' = thr s1" using Cons.prems b by (auto intro: Cons.IH)
  ultimately show ?case by simp
qed

lemma thr_scan_any: "scan_any env t i objs s = Some (r, s') \<Longrightarrow> thr s' = thr s"
proof (induction objs arbitrary: i)
  case Nil
  then show ?case by simp
next
  case (Cons obj objs)
  show ?case
  proof (cases "ops_signaled env obj t s")
    case True
    with Cons.prems show ?thesis
      by (auto split: prod.splits dest: thr_ops_satisfied)
  next
    case False
    with Cons.prems show ?thesis by (auto intro: Cons.IH)
  qed
qed

lemma thr_check_wait: "check_wait env t s = Some (r, s') \<Longrightarrow> thr s' = thr s"
  by (auto simp: check_wait_def split: list.splits if_splits option.splits
           dest: thr_scan_any thr_tell_all)

lemma thr_remove_queue [simp]: "thr (remove_queue obj e s) = thr s"
  by (simp add: remove_queue_def release_object_def)

lemma thr_remove_entries [simp]: "thr (remove_entries t lvl i objs s) = thr s"
  by (induction objs arbitrary: i s) auto

lemma end_wait_pops:
  "end_wait t s = Some s' \<Longrightarrow> wait (thr s t) = w # ws \<Longrightarrow>
   thr s' = (thr s)(t := (thr s t)\<lparr>wait := ws\<rparr>)"
  by (auto simp: end_wait_def Let_def upd_thread_def remove_timeout_user_def split: option.splits)

lemma wake_step_decreases:
  assumes "wait (thr s t) = w # ws" "check_wait env t s = Some (sg, s1)"
    "end_wait t s1 = Some s2" "(r, s3) = send_thread_wakeup t ck sg s2"
  shows "length (wait (thr s3 t)) < Suc (length ws)"
proof -
  have "thr s1 = thr s" using assms(2) by (rule thr_check_wait)
  with assms(1,3) have "thr s2 = (thr s)(t := (thr s t)\<lparr>wait := ws\<rparr>)"
    using end_wait_pops[of t s1 s2 w ws] by simp
  with assms(1,4) show ?thesis by (auto simp: send_thread_wakeup_def upd_thread_def)
qed

function wake_thread_loop :: "'x env \<Rightarrow> nat \<Rightarrow> int \<Rightarrow> 'x server \<Rightarrow> int \<times> 'x server" where
  "wake_thread_loop env t count s =
     (case wait (thr s t) of
        [] \<Rightarrow> (count, s)
      | w # ws \<Rightarrow>
          (case check_wait env t s of
             None \<Rightarrow> (count, s)
           | Some (signaled, s1) \<Rightarrow>
               if signaled = - 1 then (count, s1)
               else
                 (case end_wait t s1 of
                    None \<Rightarrow> (count, s1)
                  | Some s2 \<Rightarrow>
                      (case send_thread_wakeup t (cookie w) signaled s2 of
                         (r, s3) \<Rightarrow>
                           if r = - 1 then (count, s3)
                           else wake_thread_loop env t (count + 1) s3))))"
  by pat_completeness auto
termination
  by (relation "measure (\<lambda>(env, t, count, s). length (wait (thr s t)))")
     (auto intro: wake_step_decreases)

declare wake_thread_loop.simps [simp del]

text \<open>\<^verbatim>\<open>wake_thread\<close>: the number of frames resolved.\<close>

definition wake_thread :: "'x env \<Rightarrow> nat \<Rightarrow> 'x server \<Rightarrow> int \<times> 'x server" where
  "wake_thread env t s = wake_thread_loop env t 0 s"

subsection \<open>What a wake-up changes\<close>


text \<open>
  What waking threads leaves alone: every component of the state but the threads, the wait
  queues, the reference counts, the timers, the log of \<^verbatim>\<open>satisfied\<close> calls and the state of
  the other objects; and of a thread, everything but its frames and its wake-up record.
\<close>

definition unwoken :: "thread \<Rightarrow> thread" where
  "unwoken th = th\<lparr>wait := [], completion := 0, wake_cookie := 0, wake_signaled := 0\<rparr>"

definition wake_frame :: "'x server \<Rightarrow> 'x server \<Rightarrow> bool" where
  "wake_frame s s' \<longleftrightarrow>
     procs s' = procs s \<and> apcs s' = apcs s \<and> next_apc s' = next_apc s \<and>
     next_thread s' = next_thread s \<and> next_timer s' = next_timer s \<and>
     current_time s' = current_time s \<and> current_thread s' = current_thread s \<and>
     error s' = error s \<and> signals s' = signals s \<and>
     (\<forall>t. unwoken (thr s' t) = unwoken (thr s t)) \<and>
     (\<forall>t. length (wait (thr s' t)) \<le> length (wait (thr s t))) \<and>
     (\<forall>obj. subseq (wait_queue s' obj) (wait_queue s obj))"

lemma wake_frame_refl [simp]: "wake_frame s s"
  by (simp add: wake_frame_def)

lemma wake_frame_trans: "wake_frame s s1 \<Longrightarrow> wake_frame s1 s2 \<Longrightarrow> wake_frame s s2"
  unfolding wake_frame_def
  by (auto intro: subseq_order.order_trans order_trans)

lemma wake_frame_ops_satisfied: "ops_satisfied env obj t s = (r, s') \<Longrightarrow> wake_frame s s'"
  by (cases obj) (auto simp: ops_satisfied_def Let_def wake_frame_def split: prod.splits)

lemma wake_frame_tell_all: "tell_all env t objs sg s = (r, s') \<Longrightarrow> wake_frame s s'"
proof (induction objs arbitrary: sg s)
  case Nil
  then show ?case by simp
next
  case (Cons obj objs)
  obtain b s1 where b: "ops_satisfied env obj t s = (b, s1)" by (cases "ops_satisfied env obj t s")
  then have "wake_frame s s1" by (rule wake_frame_ops_satisfied)
  moreover have "wake_frame s1 s'" using Cons.prems b by (auto intro: Cons.IH)
  ultimately show ?case by (rule wake_frame_trans)
qed

lemma wake_frame_scan_any: "scan_any env t i objs s = Some (r, s') \<Longrightarrow> wake_frame s s'"
proof (induction objs arbitrary: i)
  case Nil
  then show ?case by simp
next
  case (Cons obj objs)
  show ?case
  proof (cases "ops_signaled env obj t s")
    case True
    with Cons.prems show ?thesis
      by (auto split: prod.splits dest: wake_frame_ops_satisfied)
  next
    case False
    with Cons.prems show ?thesis by (auto intro: Cons.IH)
  qed
qed

lemma wake_frame_check_wait: "check_wait env t s = Some (r, s') \<Longrightarrow> wake_frame s s'"
  by (auto simp: check_wait_def split: list.splits if_splits option.splits
           dest: wake_frame_scan_any wake_frame_tell_all)

lemma subseq_remove1: "subseq (remove1 x xs) xs"
  by (induction xs) auto

lemma wake_frame_remove_queue: "wake_frame s (remove_queue obj e s)"
  by (simp add: remove_queue_def release_object_def wake_frame_def subseq_remove1)

lemma wake_frame_remove_entries: "wake_frame s (remove_entries t lvl i objs s)"
proof (induction objs arbitrary: i s)
  case Nil
  show ?case by simp
next
  case (Cons obj objs)
  show ?case
    using wake_frame_trans[OF wake_frame_remove_queue Cons.IH] by simp
qed

lemma wake_frame_end_wait: "end_wait t s = Some s' \<Longrightarrow> wake_frame s s'"
proof -
  assume a: "end_wait t s = Some s'"
  then obtain w ws where w: "wait (thr s t) = w # ws" by (auto simp: end_wait_def split: list.splits)
  let ?s1 = "upd_thread t (\<lambda>th. th\<lparr>wait := ws\<rparr>) s"
  let ?s2 = "remove_entries t (length ws) 0 (queues w) ?s1"
  have 1: "wake_frame s ?s1" using w by (auto simp: wake_frame_def upd_thread_def unwoken_def)
  have 2: "wake_frame ?s1 ?s2" by (rule wake_frame_remove_entries)
  have 3: "wake_frame ?s2 s'"
    using a w by (auto simp: end_wait_def Let_def remove_timeout_user_def wake_frame_def
                       split: option.splits)
  from 1 2 3 show ?thesis by (blast intro: wake_frame_trans)
qed

lemma wake_frame_send_thread_wakeup: "wake_frame s (snd (send_thread_wakeup t ck sg s))"
  by (auto simp: send_thread_wakeup_def wake_frame_def upd_thread_def unwoken_def)

lemma check_wait_pending: "check_wait env t s = Some (- 1, s') \<Longrightarrow> s' = s"
proof -
  assume a: "check_wait env t s = Some (- 1, s')"
  have ta: "fst (tell_all env t objs 0 s) \<noteq> - 1" for objs
    by (simp add: tell_all_eq STATUS_ABANDONED_WAIT_0_def)
  have sa: "scan_any env t 0 objs s \<noteq> Some (- 1, s')" for objs
    using scan_any_Some[of env t 0 objs s "- 1" s'] by (auto simp: STATUS_ABANDONED_WAIT_0_def)
  from a show ?thesis
    using ta sa
    by (auto simp: check_wait_def split: list.splits if_splits option.splits)
       (metis fst_conv)+
qed


lemma wake_step:
  assumes "wait (thr s t) = w # ws" "check_wait env t s = Some (sg, sa)"
    "end_wait t sa = Some sb" "sc = snd (send_thread_wakeup t ck sg sb)"
  shows "wake_frame s sc \<and> (\<forall>t'. t' \<noteq> t \<longrightarrow> thr sc t' = thr s t') \<and> wait (thr sc t) = ws"
proof -
  have a: "thr sa = thr s" using assms(2) by (rule thr_check_wait)
  with assms(1,3) have b: "thr sb = (thr s)(t := (thr s t)\<lparr>wait := ws\<rparr>)"
    using end_wait_pops[of t sa sb w ws] by simp
  have "wake_frame s sa" using assms(2) by (rule wake_frame_check_wait)
  moreover have "wake_frame sa sb" using assms(3) by (rule wake_frame_end_wait)
  moreover have "wake_frame sb sc" unfolding assms(4) by (rule wake_frame_send_thread_wakeup)
  ultimately have "wake_frame s sc" by (blast intro: wake_frame_trans)
  moreover have "\<forall>t'. t' \<noteq> t \<longrightarrow> thr sc t' = thr s t'"
    using b by (simp add: assms(4) send_thread_wakeup_def upd_thread_def)
  moreover have "wait (thr sc t) = ws"
    using b by (simp add: assms(4) send_thread_wakeup_def upd_thread_def)
  ultimately show ?thesis by blast
qed

lemma wake_thread_loop_props:
  "wake_thread_loop env t c s = (n, s1) \<Longrightarrow>
     c \<le> n \<and> (n = c \<longrightarrow> s1 = s) \<and> wake_frame s s1 \<and>
     (\<forall>t'. t' \<noteq> t \<longrightarrow> thr s1 t' = thr s t') \<and>
     int (length (wait (thr s1 t))) + (n - c) = int (length (wait (thr s t)))"
proof (induction env t c s arbitrary: n s1 rule: wake_thread_loop.induct)
  case (1 env t count s)
  show ?case
  proof (cases "wait (thr s t)")
    case Nil
    with "1.prems" show ?thesis by (simp add: wake_thread_loop.simps)
  next
    case (Cons w ws)
    show ?thesis
    proof (cases "check_wait env t s")
      case None
      with Cons "1.prems" show ?thesis by (simp add: wake_thread_loop.simps)
    next
      case (Some x2)
      obtain sg sa where x2: "x2 = (sg, sa)" by (cases x2)
      show ?thesis
      proof (cases "sg = - 1")
        case True
        then have "sa = s" using Some x2 check_wait_pending by blast
        with True Cons Some x2 "1.prems" show ?thesis by (simp add: wake_thread_loop.simps)
      next
        case False
        show ?thesis
        proof (cases "end_wait t sa")
          case None
          then have "wait (thr sa t) = []" by (auto simp: end_wait_def Let_def split: list.splits)
          moreover have "thr sa = thr s" using Some x2 thr_check_wait by blast
          ultimately show ?thesis using Cons by simp
        next
          case (Some sb)
          define sc where "sc = snd (send_thread_wakeup t (cookie w) sg sb)"
          have snd: "send_thread_wakeup t (cookie w) sg sb = (0, sc)"
            by (simp add: sc_def send_thread_wakeup_def)
          have rec: "wake_thread_loop env t (count + 1) sc = (n, s1)"
            using "1.prems" Cons \<open>check_wait env t s = Some x2\<close> x2 False Some snd
            by (simp add: wake_thread_loop.simps)
          have ih: "count + 1 \<le> n \<and> (n = count + 1 \<longrightarrow> s1 = sc) \<and> wake_frame sc s1 \<and>
             (\<forall>t'. t' \<noteq> t \<longrightarrow> thr s1 t' = thr sc t') \<and>
             int (length (wait (thr s1 t))) + (n - (count + 1)) = int (length (wait (thr sc t)))"
            using "1.IH"[OF Cons \<open>check_wait env t s = Some x2\<close> x2[symmetric] False Some
                snd[symmetric] _ rec] by simp
          have st: "wake_frame s sc \<and> (\<forall>t'. t' \<noteq> t \<longrightarrow> thr sc t' = thr s t') \<and> wait (thr sc t) = ws"
            using wake_step[OF Cons _ Some sc_def] \<open>check_wait env t s = Some x2\<close> x2 by simp
          from ih st Cons show ?thesis
            by (auto intro: wake_frame_trans)
        qed
      qed
    qed
  qed
qed


lemma sum_list_subseq_le:
  fixes f g :: "'a \<Rightarrow> nat"
  shows "subseq xs ys \<Longrightarrow> (\<forall>e\<in>set ys. f e \<le> g e) \<Longrightarrow>
         sum_list (map f xs) \<le> sum_list (map g ys)"
proof (induction rule: list_emb.induct)
  case (list_emb_Nil ys)
  show ?case by simp
next
  case (list_emb_Cons xs ys y)
  then show ?case by (simp add: trans_le_add2)
next
  case (list_emb_Cons2 x y xs ys)
  then show ?case by (simp add: add_mono)
qed

lemma sum_list_subseq_less:
  fixes f g :: "'a \<Rightarrow> nat"
  shows "subseq xs ys \<Longrightarrow> (\<forall>e\<in>set ys. f e \<le> g e) \<Longrightarrow> e0 \<in> set ys \<Longrightarrow> f e0 < g e0 \<Longrightarrow>
         sum_list (map f xs) < sum_list (map g ys)"
proof (induction rule: list_emb.induct)
  case (list_emb_Nil ys)
  then show ?case by (induction ys) auto
next
  case (list_emb_Cons xs ys y)
  show ?case
  proof (cases "e0 \<in> set ys")
    case True
    with list_emb_Cons show ?thesis by (simp add: trans_less_add2)
  next
    case False
    with list_emb_Cons.prems have "e0 = y" by simp
    moreover have "sum_list (map f xs) \<le> sum_list (map g ys)"
      using list_emb_Cons by (intro sum_list_subseq_le) auto
    ultimately show ?thesis using list_emb_Cons.prems by simp
  qed
next
  case (list_emb_Cons2 x y xs ys)
  show ?case
  proof (cases "e0 \<in> set ys")
    case True
    with list_emb_Cons2 show ?thesis by (simp add: add_le_less_mono)
  next
    case False
    with list_emb_Cons2.prems have "e0 = y" by simp
    moreover have "sum_list (map f xs) \<le> sum_list (map g ys)"
      using list_emb_Cons2 by (intro sum_list_subseq_le) auto
    ultimately show ?thesis using list_emb_Cons2 by (simp add: add_less_le_mono)
  qed
qed

text \<open>The frames of the threads queued on an object, counted per entry.\<close>

definition queued_frames :: "object \<Rightarrow> 'x server \<Rightarrow> nat" where
  "queued_frames obj s =
     sum_list (map (\<lambda>e. length (wait (thr s (e_thread e)))) (wait_queue s obj))"

lemma wake_thread_idle: "wake_thread env t s = (0, s1) \<Longrightarrow> s1 = s"
  using wake_thread_loop_props[of env t 0 s 0 s1] by (simp add: wake_thread_def)

lemma wake_thread_frames:
  assumes "wake_thread env t s = (n, s1)" "n \<noteq> 0" "e \<in> set (wait_queue s obj)" "e_thread e = t"
  shows "queued_frames obj s1 < queued_frames obj s"
proof -
  have p: "0 \<le> n" "wake_frame s s1"
    "int (length (wait (thr s1 t))) + n = int (length (wait (thr s t)))"
    using wake_thread_loop_props[of env t 0 s n s1] assms(1) by (simp_all add: wake_thread_def)
  have "length (wait (thr s1 t)) < length (wait (thr s t))" using p(1,3) assms(2) by linarith
  moreover have "\<forall>t'. length (wait (thr s1 t')) \<le> length (wait (thr s t'))"
    and "subseq (wait_queue s1 obj) (wait_queue s obj)"
    using p(2) by (simp_all add: wake_frame_def)
  ultimately show ?thesis
    unfolding queued_frames_def using assms(3,4)
    by (intro sum_list_subseq_less[where ?e0.0 = e]) auto
qed

text \<open>
  \<^verbatim>\<open>uk_wake_up\<close>. The cursor \<open>k\<close> is the position of \<^verbatim>\<open>ptr\<close> in the object's wait queue:
  it moves on when the thread of the entry cannot be woken and goes back to the head after
  a wake-up, unless \<open>mx\<close> wake-ups have been done.
\<close>

function uk_wake_up_loop :: "'x env \<Rightarrow> object \<Rightarrow> nat \<Rightarrow> int \<Rightarrow> 'x server \<Rightarrow> 'x server" where
  "uk_wake_up_loop env obj k mx s =
     (if length (wait_queue s obj) \<le> k then s
      else
        (case wake_thread env (e_thread (wait_queue s obj ! k)) s of
           (n, s1) \<Rightarrow>
             if n = 0 then uk_wake_up_loop env obj (Suc k) mx s1
             else if mx \<noteq> 0 \<and> mx - 1 = 0 then s1
             else uk_wake_up_loop env obj 0 (if mx \<noteq> 0 then mx - 1 else mx) s1))"
  by pat_completeness auto
termination
proof (relation "measures [\<lambda>(env, obj, k, mx, s). queued_frames obj s,
                           \<lambda>(env, obj, k, mx, s). length (wait_queue s obj) - k]", goal_cases)
  case 1
  show ?case by simp
next
  case (2 env obj k mx s n s1)
  then have "s1 = s" using wake_thread_idle[of env _ s s1] by simp
  with 2 show ?case by auto
next
  case (3 env obj k mx s n s1)
  then have "wake_thread env (e_thread (wait_queue s obj ! k)) s = (n, s1)" by simp
  moreover have "wait_queue s obj ! k \<in> set (wait_queue s obj)" using 3 by simp
  ultimately have "queued_frames obj s1 < queued_frames obj s"
    using 3 by (intro wake_thread_frames) auto
  then show ?case by simp
qed

declare uk_wake_up_loop.simps [simp del]

definition uk_wake_up :: "'x env \<Rightarrow> object \<Rightarrow> int \<Rightarrow> 'x server \<Rightarrow> 'x server" where
  "uk_wake_up env obj mx s = uk_wake_up_loop env obj 0 mx s"

lemma wake_frame_wake_thread: "wake_thread env t s = (n, s1) \<Longrightarrow> wake_frame s s1"
  using wake_thread_loop_props[of env t 0 s n s1] by (simp add: wake_thread_def)

lemma wake_frame_uk_wake_up_loop: "wake_frame s (uk_wake_up_loop env obj k mx s)"
proof (induction env obj k mx s rule: uk_wake_up_loop.induct)
  case (1 env obj k mx s)
  show ?case
  proof (cases "length (wait_queue s obj) \<le> k")
    case True
    then show ?thesis by (simp add: uk_wake_up_loop.simps)
  next
    case False
    obtain n s1 where w: "wake_thread env (e_thread (wait_queue s obj ! k)) s = (n, s1)"
      by (cases "wake_thread env (e_thread (wait_queue s obj ! k)) s")
    have f: "wake_frame s s1" using w by (rule wake_frame_wake_thread)
    show ?thesis
    proof (cases "n = 0")
      case True
      from "1.IH"(1)[OF False w[symmetric] True] f False w True show ?thesis
        by (subst uk_wake_up_loop.simps) (auto intro: wake_frame_trans)
    next
      case n: False
      show ?thesis
      proof (cases "mx \<noteq> 0 \<and> mx - 1 = 0")
        case True
        with False w n f show ?thesis by (subst uk_wake_up_loop.simps) auto
      next
        case m: False
        from "1.IH"(2)[OF False w[symmetric] n m] f False w n m show ?thesis
          by (subst uk_wake_up_loop.simps) (auto intro: wake_frame_trans)
      qed
    qed
  qed
qed

lemma wake_frame_uk_wake_up: "wake_frame s (uk_wake_up env obj mx s)"
  by (simp add: uk_wake_up_def wake_frame_uk_wake_up_loop)


subsection \<open>APC queues\<close>

text \<open>The two list heads \<^verbatim>\<open>&thread->system_apc\<close> and \<^verbatim>\<open>&thread->user_apc\<close>.\<close>

datatype apc_queue = System_apc | User_apc

definition get_apc_queue :: "apc_type \<Rightarrow> apc_queue" where
  "get_apc_queue type =
     (case type of
        APC_NONE \<Rightarrow> User_apc
      | APC_USER \<Rightarrow> User_apc
      | APC_TIMER \<Rightarrow> User_apc
      | _ \<Rightarrow> System_apc)"

definition apc_list :: "apc_queue \<Rightarrow> thread \<Rightarrow> nat list" where
  "apc_list q th = (case q of System_apc \<Rightarrow> system_apc th | User_apc \<Rightarrow> user_apc th)"

definition set_apc_list :: "apc_queue \<Rightarrow> nat list \<Rightarrow> thread \<Rightarrow> thread" where
  "set_apc_list q l th =
     (case q of System_apc \<Rightarrow> th\<lparr>system_apc := l\<rparr> | User_apc \<Rightarrow> th\<lparr>user_apc := l\<rparr>)"

definition is_in_apc_wait :: "'x server \<Rightarrow> nat \<Rightarrow> bool" where
  "is_in_apc_wait s t \<longleftrightarrow>
     proc_suspend (procs s (process (thr s t))) \<noteq> 0 \<or> suspend (thr s t) \<noteq> 0 \<or>
     (case wait (thr s t) of [] \<Rightarrow> False | w # ws \<Rightarrow> flags w AND SELECT_INTERRUPTIBLE \<noteq> 0)"

text \<open>
  \<^verbatim>\<open>create_apc\<close>. \<^verbatim>\<open>alloc_object\<close> hands out the next APC with one reference, or fails;
  only the type of the result is initialised.
\<close>

definition create_apc :: "'x env \<Rightarrow> object option \<Rightarrow> apc_call_t \<Rightarrow> 'x server \<Rightarrow> nat option \<times> 'x server" where
  "create_apc env own call_data s =
     (if \<not> alloc_ok env (ext s) then (None, set_error STATUS_NO_MEMORY s)
      else
        let a = next_apc s;
            s1 = s\<lparr>apcs := (apcs s)(a := \<lparr>caller = None, owner = own, executed = False,
                                             call = call_data,
                                             result = \<lparr>result_type = APC_NONE, result_data = 0\<rparr>\<rparr>),
                   next_apc := Suc a,
                   grabs := (grabs s)(Apc_obj a := 1)\<rparr>
        in (Some a, case own of None \<Rightarrow> s1 | Some obj \<Rightarrow> grab_object obj s1))"

text \<open>
  \<^verbatim>\<open>thread_cancel_apc\<close>. The scan walks the queue; \<open>pre\<close> holds the entries already passed,
  so that \<open>pre @ rest\<close> is the queue without the entry found.
\<close>

fun cancel_scan :: "'x env \<Rightarrow> nat \<Rightarrow> apc_queue \<Rightarrow> object option \<Rightarrow> nat list \<Rightarrow> nat list \<Rightarrow> 'x server \<Rightarrow> 'x server" where
  "cancel_scan env t q own pre [] s = s"
| "cancel_scan env t q own pre (a # rest) s =
     (if owner (apcs s a) \<noteq> own then cancel_scan env t q own (pre @ [a]) rest s
      else
        let s1 = upd_thread t (set_apc_list q (pre @ rest)) s;
            s2 = upd_apc a (\<lambda>apc. apc\<lparr>executed := True\<rparr>) s1;
            s3 = uk_wake_up env (Apc_obj a) 0 s2
        in release_object (Apc_obj a) s3)"

definition thread_cancel_apc :: "'x env \<Rightarrow> nat \<Rightarrow> object option \<Rightarrow> apc_type \<Rightarrow> 'x server \<Rightarrow> 'x server" where
  "thread_cancel_apc env t own type s =
     cancel_scan env t (get_apc_queue type) own [] (apc_list (get_apc_queue type) (thr s t)) s"

text \<open>The first search of \<^verbatim>\<open>queue_apc\<close>: a thread that is waiting for an APC.\<close>

fun find_waiting :: "'x server \<Rightarrow> nat list \<Rightarrow> nat option" where
  "find_waiting s [] = None"
| "find_waiting s (candidate # cs) =
     (if state (thr s candidate) = TERMINATED then find_waiting s cs
      else if is_in_apc_wait s candidate then Some candidate
      else find_waiting s cs)"

text \<open>The second search: the first thread that accepts a signal.\<close>

fun find_signalable :: "'x env \<Rightarrow> nat list \<Rightarrow> 'x server \<Rightarrow> nat option \<times> 'x server" where
  "find_signalable env [] s = (None, s)"
| "find_signalable env (candidate # cs) s =
     (case send_thread_signal env candidate SIGUSR1 s of
        (True, s1) \<Rightarrow> (Some candidate, s1)
      | (False, s1) \<Rightarrow> find_signalable env cs s1)"

text \<open>
  The end of \<^verbatim>\<open>queue_apc\<close>, common to both branches: the APC is grabbed and appended, and
  the thread is woken when the APC has no predecessor in the queue.
\<close>

definition append_apc :: "'x env \<Rightarrow> nat \<Rightarrow> apc_queue \<Rightarrow> nat \<Rightarrow> 'x server \<Rightarrow> 'x server" where
  "append_apc env t q a s =
     (let s1 = grab_object (Apc_obj a) s;
          old = apc_list q (thr s1 t);
          s2 = upd_thread t (set_apc_list q (old @ [a])) s1
      in if old = [] then snd (wake_thread env t s2) else s2)"

text \<open>
  \<^verbatim>\<open>queue_apc\<close>. A null \<^verbatim>\<open>thread\<close> is \<open>None\<close>; the result is \<open>None\<close> when both pointers are
  null (the process is then dereferenced).
\<close>

definition queue_apc :: "'x env \<Rightarrow> nat option \<Rightarrow> nat option \<Rightarrow> nat \<Rightarrow> 'x server \<Rightarrow> (int \<times> 'x server) option" where
  "queue_apc env proc thread a s =
     (case thread of
        None \<Rightarrow>
          (case proc of
             None \<Rightarrow> None
           | Some p \<Rightarrow>
               (case find_waiting s (thread_list (procs s p)) of
                  Some t \<Rightarrow> Some (1, append_apc env t (get_apc_queue (call_type (call (apcs s a)))) a s)
                | None \<Rightarrow>
                    (case find_signalable env (thread_list (procs s p)) s of
                       (Some t, s1) \<Rightarrow>
                         Some (1, append_apc env t (get_apc_queue (call_type (call (apcs s1 a)))) a s1)
                     | (None, s1) \<Rightarrow> Some (0, s1))))
      | Some t \<Rightarrow>
          if state (thr s t) = TERMINATED then Some (0, s)
          else
            let q = get_apc_queue (call_type (call (apcs s a))) in
            (case (if q = System_apc \<and> apc_list q (thr s t) = [] \<and> \<not> is_in_apc_wait s t
                   then send_thread_signal env t SIGUSR1 s else (True, s)) of
               (False, s1) \<Rightarrow> Some (0, s1)
             | (True, s1) \<Rightarrow>
                 (let s2 = (case owner (apcs s1 a) of
                              None \<Rightarrow> s1
                            | Some obj \<Rightarrow>
                                thread_cancel_apc env t (Some obj) (call_type (call (apcs s1 a))) s1)
                  in Some (1, append_apc env t q a s2))))"

definition thread_queue_apc :: "'x env \<Rightarrow> nat option \<Rightarrow> object option \<Rightarrow> apc_call_t \<Rightarrow> 'x server \<Rightarrow> (int \<times> 'x server) option" where
  "thread_queue_apc env thread own call_data s =
     (case create_apc env own call_data s of
        (None, s1) \<Rightarrow> Some (0, s1)
      | (Some a, s1) \<Rightarrow>
          (case queue_apc env None thread a s1 of
             None \<Rightarrow> None
           | Some (ret, s2) \<Rightarrow> Some (ret, release_object (Apc_obj a) s2)))"

definition thread_dequeue_apc :: "nat \<Rightarrow> bool \<Rightarrow> 'x server \<Rightarrow> nat option \<times> 'x server" where
  "thread_dequeue_apc t system_only s =
     (case system_apc (thr s t) of
        a # rest \<Rightarrow> (Some a, upd_thread t (\<lambda>th. th\<lparr>system_apc := rest\<rparr>) s)
      | [] \<Rightarrow>
          if \<not> system_only then
            (case user_apc (thr s t) of
               a # rest \<Rightarrow> (Some a, upd_thread t (\<lambda>th. th\<lparr>user_apc := rest\<rparr>) s)
             | [] \<Rightarrow> (None, s))
          else (None, s))"

lemma wake_frame_apc_list:
  "wake_frame s s' \<Longrightarrow> apc_list q (thr s' t) = apc_list q (thr s t)"
proof -
  assume "wake_frame s s'"
  then have "unwoken (thr s' t) = unwoken (thr s t)" by (simp add: wake_frame_def)
  then have "system_apc (unwoken (thr s' t)) = system_apc (unwoken (thr s t))"
    and "user_apc (unwoken (thr s' t)) = user_apc (unwoken (thr s t))" by simp_all
  then show ?thesis by (cases q) (simp_all add: apc_list_def unwoken_def)
qed

lemma apc_list_set_apc_list [simp]: "apc_list q (set_apc_list q l th) = l"
  by (cases q) (simp_all add: apc_list_def set_apc_list_def)

function clear_apc_queue :: "'x env \<Rightarrow> nat \<Rightarrow> apc_queue \<Rightarrow> 'x server \<Rightarrow> 'x server" where
  "clear_apc_queue env t q s =
     (case apc_list q (thr s t) of
        [] \<Rightarrow> s
      | a # rest \<Rightarrow>
          (let s1 = upd_thread t (set_apc_list q rest) s;
               s2 = upd_apc a (\<lambda>apc. apc\<lparr>executed := True\<rparr>) s1;
               s3 = uk_wake_up env (Apc_obj a) 0 s2
           in clear_apc_queue env t q (release_object (Apc_obj a) s3)))"
  by pat_completeness auto
termination
proof (relation "measure (\<lambda>(env, t, q, s). length (apc_list q (thr s t)))", goal_cases)
  case 1
  show ?case by simp
next
  case (2 env t q s a rest s1 s2 s3)
  have "apc_list q (thr s3 t) = apc_list q (thr s2 t)"
    unfolding 2 by (rule wake_frame_apc_list[OF wake_frame_uk_wake_up])
  also have "\<dots> = rest" unfolding 2 by (simp add: upd_apc_def upd_thread_def)
  finally show ?case using 2 by (simp add: release_object_def)
qed

declare clear_apc_queue.simps [simp del]


subsection \<open>Suspending and resuming\<close>

definition stop_thread :: "'x env \<Rightarrow> nat \<Rightarrow> 'x server \<Rightarrow> 'x server" where
  "stop_thread env t s =
     (if thread_context (thr s t) \<noteq> None then s
      else if startup_done (procs s (process (thr s t)))
      then snd (send_thread_signal env t SIGUSR1 s)
      else s)"

definition suspend_thread :: "'x env \<Rightarrow> nat \<Rightarrow> 'x server \<Rightarrow> int \<times> 'x server" where
  "suspend_thread env t s =
     (let old_count = suspend (thr s t) in
      if suspend (thr s t) < MAXIMUM_SUSPEND_COUNT then
        (let s1 = upd_thread t (\<lambda>th. th\<lparr>suspend := suspend th + 1\<rparr>) s
         in (old_count,
             if proc_suspend (procs s (process (thr s t))) + old_count = 0
             then stop_thread env t s1 else s1))
      else (old_count, set_error STATUS_SUSPEND_COUNT_EXCEEDED s))"

definition resume_thread :: "'x env \<Rightarrow> nat \<Rightarrow> 'x server \<Rightarrow> int \<times> 'x server" where
  "resume_thread env t s =
     (let old_count = suspend (thr s t) in
      if suspend (thr s t) > 0 then
        (let s1 = upd_thread t (\<lambda>th. th\<lparr>suspend := suspend th - 1\<rparr>) s
         in (old_count,
             if suspend (thr s1 t) + proc_suspend (procs s1 (process (thr s1 t))) = 0
             then snd (wake_thread env t s1) else s1))
      else (old_count, s))"

text \<open>The handlers \<^verbatim>\<open>suspend_thread\<close> and \<^verbatim>\<open>resume_thread\<close>, the handle already resolved.\<close>

definition req_suspend_thread :: "'x env \<Rightarrow> nat \<Rightarrow> 'x server \<Rightarrow> int option \<times> 'x server" where
  "req_suspend_thread env t s =
     (if state (thr s t) = TERMINATED then (None, set_error STATUS_ACCESS_DENIED s)
      else case suspend_thread env t s of (n, s1) \<Rightarrow> (Some n, s1))"

definition req_resume_thread :: "'x env \<Rightarrow> nat \<Rightarrow> 'x server \<Rightarrow> int option \<times> 'x server" where
  "req_resume_thread env t s = (case resume_thread env t s of (n, s1) \<Rightarrow> (Some n, s1))"

subsection \<open>Killing a thread\<close>

text \<open>\<^verbatim>\<open>while (thread->wait) end_wait( thread )\<close>\<close>

function end_all_waits :: "nat \<Rightarrow> 'x server \<Rightarrow> 'x server" where
  "end_all_waits t s =
     (if wait (thr s t) = [] then s
      else case end_wait t s of None \<Rightarrow> s | Some s1 \<Rightarrow> end_all_waits t s1)"
  by pat_completeness auto
termination
proof (relation "measure (\<lambda>(t, s). length (wait (thr s t)))", goal_cases)
  case 1
  show ?case by simp
next
  case (2 t s s1)
  then obtain w ws where w: "wait (thr s t) = w # ws" by (cases "wait (thr s t)") auto
  with 2 show ?case using end_wait_pops[of t s s1 w ws] by simp
qed

declare end_all_waits.simps [simp del]

text \<open>
  \<^verbatim>\<open>cleanup_thread\<close>: the APC queues are cleared, the subsystems that hold something of the
  thread are called, and the pointers of the thread are reset (of those, the model keeps
  \<^verbatim>\<open>context\<close>). Request buffers, file descriptors and the desktop are not modelled.
\<close>

definition cleanup_thread :: "'x env \<Rightarrow> nat \<Rightarrow> 'x server \<Rightarrow> 'x server" where
  "cleanup_thread env t s =
     (let s1 = clear_apc_queue env t System_apc s;
          s2 = clear_apc_queue env t User_apc s1;
          s3 = collab env Cleanup_clipboard_thread t s2;
          s4 = collab env Destroy_thread_windows t s3;
          s5 = collab env Free_msg_queue t s4;
          s6 = collab env Close_thread_desktop t s5
      in upd_thread t (\<lambda>th. th\<lparr>thread_context := None\<rparr>) s6)"

definition kill_thread :: "'x env \<Rightarrow> nat \<Rightarrow> bool \<Rightarrow> 'x server \<Rightarrow> 'x server" where
  "kill_thread env t violent_death s =
     (if state (thr s t) = TERMINATED then s
      else
        let s1 = upd_thread t (\<lambda>th. th\<lparr>state := TERMINATED, exit_time := current_time s\<rparr>) s;
            waiting = (wait (thr s1 t) \<noteq> []);
            s2 = (if waiting
                  then (let s1a = end_all_waits t s1
                        in snd (send_thread_wakeup t 0 (exit_code (thr s1a t)) s1a))
                  else s1);
            violent = (if waiting then False else violent_death);
            s3 = collab env Kill_console_processes t s2;
            s4 = collab env Debug_exit_thread t s3;
            s5 = collab env Abandon_mutexes t s4;
            s6 = uk_wake_up env (Thread_obj t) 0 s5;
            s7 = (if violent then snd (send_thread_signal env t SIGQUIT s6) else s6);
            s8 = cleanup_thread env t s7;
            s9 = collab env Remove_process_thread t s8
        in release_object (Thread_obj t) s9)"

subsection \<open>Creating a thread\<close>

text \<open>\<^verbatim>\<open>init_thread_structure\<close>, with the fields \<^verbatim>\<open>create_thread\<close> sets after it.\<close>

definition init_thread_structure :: "nat \<Rightarrow> timeout_t \<Rightarrow> thread" where
  "init_thread_structure p now =
     \<lparr>process = p, state = RUNNING, exit_code = 0, exit_time = 0, creation_time = now,
      priority = 0, suspend = 0, thread_context = None, wait = [], system_apc = [],
      user_apc = [], completion = 0, wake_cookie = 0, wake_signaled = 0\<rparr>"

text \<open>
  \<^verbatim>\<open>create_thread\<close>: \<^verbatim>\<open>alloc_object\<close> hands out the next thread, or fails (as
  \<^verbatim>\<open>alloc_ptid\<close> may; both are covered by \<open>alloc_ok\<close>).
\<close>

definition create_thread :: "'x env \<Rightarrow> nat \<Rightarrow> 'x server \<Rightarrow> nat option \<times> 'x server" where
  "create_thread env p s =
     (if is_terminating (procs s p) then (None, set_error STATUS_PROCESS_IS_TERMINATING s)
      else if \<not> alloc_ok env (ext s) then (None, set_error STATUS_NO_MEMORY s)
      else
        let t = next_thread s;
            s1 = s\<lparr>thr := (thr s)(t := init_thread_structure p (current_time s)),
                   next_thread := Suc t,
                   grabs := (grabs s)(Thread_obj t := 1)\<rparr>
        in (Some t, collab env Add_process_thread t s1))"

text \<open>The handler \<^verbatim>\<open>new_thread\<close>: the reply is the new thread and its handle.\<close>

definition req_new_thread :: "'x env \<Rightarrow> bool \<Rightarrow> int \<Rightarrow> 'x server \<Rightarrow> (nat \<times> obj_handle_t) option \<times> 'x server" where
  "req_new_thread env req_suspend access s =
     (case create_thread env (process (thr s (current_thread s))) s of
        (None, s1) \<Rightarrow> (None, s1)
      | (Some t, s1) \<Rightarrow>
          (let s2 = (if req_suspend then upd_thread t (\<lambda>th. th\<lparr>suspend := suspend th + 1\<rparr>) s1
                     else s1)
           in case alloc_handle env (process (thr s2 (current_thread s2))) (Thread_obj t) access s2 of
                (h, s3) \<Rightarrow>
                  if h \<noteq> 0 then (Some (t, h), s3)
                  else (Some (t, 0), kill_thread env t True s3)))"


subsection \<open>select\_on\<close>

text \<open>
  \<^verbatim>\<open>get_handle_obj\<close>: the handle table answers with an error status, which is set, or with
  the object, which is grabbed. With \<open>apc_only\<close> the object must be an APC
  (\<^verbatim>\<open>&thread_apc_ops\<close> is passed).
\<close>

definition get_handle_obj :: "'x env \<Rightarrow> nat \<Rightarrow> obj_handle_t \<Rightarrow> int \<Rightarrow> bool \<Rightarrow> 'x server \<Rightarrow> object option \<times> 'x server" where
  "get_handle_obj env p h access apc_only s =
     (case lookup_handle env p h access (ext s) of
        Inl e \<Rightarrow> (None, set_error e s)
      | Inr obj \<Rightarrow>
          if apc_only \<and> (case obj of Apc_obj a \<Rightarrow> False | _ \<Rightarrow> True)
          then (None, set_error STATUS_OBJECT_TYPE_MISMATCH s)
          else (Some obj, grab_object obj s))"

text \<open>
  \<^verbatim>\<open>obj->ops->signal( obj, access )\<close>: threads and APCs install \<^verbatim>\<open>no_signal\<close>, which
  refuses.
\<close>

definition ops_signal :: "'x env \<Rightarrow> object \<Rightarrow> int \<Rightarrow> 'x server \<Rightarrow> bool \<times> 'x server" where
  "ops_signal env obj access s =
     (case obj of
        Other_obj n \<Rightarrow> obj_signal env n access s
      | _ \<Rightarrow> (False, set_error STATUS_OBJECT_TYPE_MISMATCH s))"

definition signal_object :: "'x env \<Rightarrow> obj_handle_t \<Rightarrow> 'x server \<Rightarrow> bool \<times> 'x server" where
  "signal_object env handle s =
     (let p = process (thr s (current_thread s)) in
      case get_handle_obj env p handle 0 False s of
        (None, s1) \<Rightarrow> (False, s1)
      | (Some obj, s1) \<Rightarrow>
          (case ops_signal env obj (get_handle_access env p handle (ext s1)) s1 of
             (ret, s2) \<Rightarrow> (ret, release_object obj s2)))"

text \<open>The loop that resolves the handles: it stops at the first handle that fails.\<close>

fun resolve_handles :: "'x env \<Rightarrow> nat \<Rightarrow> obj_handle_t list \<Rightarrow> 'x server \<Rightarrow> object list \<times> 'x server" where
  "resolve_handles env p [] s = ([], s)"
| "resolve_handles env p (h # hs) s =
     (case get_handle_obj env p h SYNCHRONIZE False s of
        (None, s1) \<Rightarrow> ([], s1)
      | (Some obj, s1) \<Rightarrow>
          (case resolve_handles env p hs s1 of (objs, s2) \<Rightarrow> (obj # objs, s2)))"

text \<open>The label \<^verbatim>\<open>done\<close>: \<^verbatim>\<open>while (i > 0) release_object( objects[--i] )\<close>.\<close>

definition release_objects :: "object list \<Rightarrow> 'x server \<Rightarrow> 'x server" where
  "release_objects objs s = fold release_object (rev objs) s"

text \<open>
  How \<^verbatim>\<open>select_on\<close> ends: it returns to the handler (\<open>Replied\<close>), it parks the calling
  thread in \<^verbatim>\<open>wait_for_completion\<close> (\<open>Parked\<close>), or an assertion of \<^verbatim>\<open>check_wait\<close> or
  \<^verbatim>\<open>end_wait\<close> fails (\<open>Aborted\<close>).
\<close>

datatype select_outcome = Replied | Parked | Aborted

text \<open>From \<^verbatim>\<open>check_wait\<close> on: the frame of the current thread is evaluated.\<close>

definition select_evaluate :: "'x env \<Rightarrow> nat \<Rightarrow> client_ptr_t \<Rightarrow> timeout_t \<Rightarrow> object list \<Rightarrow> 'x server \<Rightarrow> timeout_t \<times> select_outcome \<times> 'x server" where
  "select_evaluate env cur ck tmo objs s =
     (case check_wait env cur s of
        None \<Rightarrow> (tmo, Aborted, s)
      | Some (ret, s1) \<Rightarrow>
          if ret \<noteq> - 1 then
            (case end_wait cur s1 of
               None \<Rightarrow> (tmo, Aborted, s1)
             | Some s2 \<Rightarrow> (tmo, Replied, release_objects objs (set_error ret s2)))
          else
            (case wait (thr s1 cur) of
               [] \<Rightarrow> (tmo, Aborted, s1)
             | w # ws \<Rightarrow>
                 if timeout w \<noteq> TIMEOUT_INFINITE then
                   (case add_timeout_user env (timeout w) cur (length ws) s1 of
                      (None, s2) \<Rightarrow>
                        (case end_wait cur s2 of
                           None \<Rightarrow> (tmo, Aborted, s2)
                         | Some s3 \<Rightarrow> (tmo, Replied, release_objects objs s3))
                    | (Some u, s2) \<Rightarrow>
                        (tmo, Parked,
                         upd_thread cur (\<lambda>th. th\<lparr>wait := w\<lparr>user := Some u, cookie := ck\<rparr> # ws\<rparr>) s2))
                 else
                   (tmo, Parked, upd_thread cur (\<lambda>th. th\<lparr>wait := w\<lparr>cookie := ck\<rparr> # ws\<rparr>) s1)))"

definition select_on :: "'x env \<Rightarrow> nat \<Rightarrow> client_ptr_t \<Rightarrow> obj_handle_t list \<Rightarrow> int \<Rightarrow> timeout_t \<Rightarrow> obj_handle_t \<Rightarrow> 'x server \<Rightarrow> timeout_t \<times> select_outcome \<times> 'x server" where
  "select_on env count ck handles flgs tmo0 signal_obj s =
     (let cur = current_thread s;
          tmo = (if sint tmo0 \<le> 0 then current_time s - tmo0 else tmo0)
      in
      if count > MAXIMUM_WAIT_OBJECTS then (0, Replied, set_error STATUS_INVALID_PARAMETER s)
      else
        (case resolve_handles env (process (thr s cur)) (take count handles) s of
           (objs, s1) \<Rightarrow>
             if length objs < count then (tmo, Replied, release_objects objs s1)
             else
               (case wait_on env count objs flgs tmo s1 of
                  (False, s2) \<Rightarrow> (tmo, Replied, release_objects objs s2)
                | (True, s2) \<Rightarrow>
                    if signal_obj \<noteq> 0 then
                      (case signal_object env signal_obj s2 of
                         (False, s3) \<Rightarrow>
                           (case end_wait cur s3 of
                              None \<Rightarrow> (tmo, Aborted, s3)
                            | Some s4 \<Rightarrow> (tmo, Replied, release_objects objs s4))
                       | (True, s3) \<Rightarrow>
                           if wait (thr s3 cur) = [] then (tmo, Replied, release_objects objs s3)
                           else select_evaluate env cur ck tmo objs s3)
                    else select_evaluate env cur ck tmo objs s2)))"

text \<open>
  What \<^verbatim>\<open>select_on\<close> does once the completion has been signalled: the status of the wake-up
  becomes the error of the call if the cookie matches, and the objects are released.
\<close>

definition select_resume :: "client_ptr_t \<Rightarrow> object list \<Rightarrow> 'x server \<Rightarrow> 'x server" where
  "select_resume ck objs s =
     (let th = thr s (current_thread s);
          s1 = (if ck = wake_cookie th then set_error (wake_signaled th) s else s)
      in release_objects objs s1)"

subsection \<open>The select handler\<close>

record select_request =
  req_cookie :: client_ptr_t
  req_flags :: int
  req_timeout :: timeout_t
  req_signal :: obj_handle_t
  req_prev_apc :: obj_handle_t
  req_result :: "apc_result_t option"
  req_handles :: "obj_handle_t list"

text \<open>
  The first part of the handler: the result of the previous APC is stored. The flag is
  false when the handler returns here (the handle does not name an APC).
\<close>

definition select_store_result :: "'x env \<Rightarrow> obj_handle_t \<Rightarrow> apc_result_t \<Rightarrow> 'x server \<Rightarrow> bool \<times> 'x server" where
  "select_store_result env prev_apc res s =
     (let cur = current_thread s in
      if prev_apc = 0 then (True, s)
      else
        (case get_handle_obj env (process (thr s cur)) prev_apc 0 True s of
           (Some (Apc_obj a), s1) \<Rightarrow>
             (let s2 = upd_apc a (\<lambda>apc. apc\<lparr>result := res, executed := True\<rparr>) s1;
                  s3 = (if result_type (result (apcs s2 a)) = APC_CREATE_THREAD
                        then set_error 0 (collab env (Transfer_thread_handle a) cur s2)
                        else if result_type (result (apcs s2 a)) = APC_ASYNC_IO
                        then (if owner (apcs s2 a) \<noteq> None
                              then collab env (Async_set_result a) cur s2 else s2)
                        else s2);
                  s4 = uk_wake_up env (Apc_obj a) 0 s3;
                  s5 = collab env (Close_handle prev_apc) cur s4
              in (True, release_object (Apc_obj a) s5))
         | (_, s1) \<Rightarrow> (False, s1)))"

lemma thread_dequeue_apc_shorter:
  "thread_dequeue_apc t so s = (Some a, s1) \<Longrightarrow>
   length (system_apc (thr s1 t)) + length (user_apc (thr s1 t)) <
   length (system_apc (thr s t)) + length (user_apc (thr s t))"
  by (auto simp: thread_dequeue_apc_def upd_thread_def split: list.splits if_splits)

text \<open>
  The loop at the end of the handler, run when the status is \<^verbatim>\<open>STATUS_USER_APC\<close>. The
  result is the handle of the APC handed to the client (0 when there is none) and its call.
\<close>

function select_dequeue :: "'x env \<Rightarrow> nat \<Rightarrow> int \<Rightarrow> 'x server \<Rightarrow> (obj_handle_t \<times> apc_call_t option) \<times> 'x server" where
  "select_dequeue env cur flgs s =
     (case thread_dequeue_apc cur (flgs AND SELECT_ALERTABLE = 0) s of
        (None, s1) \<Rightarrow> ((0, None), s1)
      | (Some a, s1) \<Rightarrow>
          if call_type (call (apcs s1 a)) \<noteq> APC_NONE then
            (case alloc_handle env (process (thr s1 cur)) (Apc_obj a) SYNCHRONIZE s1 of
               (h, s2) \<Rightarrow>
                 ((h, if h \<noteq> 0 then Some (call (apcs s2 a)) else None),
                  release_object (Apc_obj a) s2))
          else
            (let s2 = upd_apc a (\<lambda>apc. apc\<lparr>executed := True\<rparr>) s1;
                 s3 = uk_wake_up env (Apc_obj a) 0 s2
             in select_dequeue env cur flgs (release_object (Apc_obj a) s3)))"
  by pat_completeness auto
termination
proof (relation "measure (\<lambda>(env, cur, flgs, s).
          length (system_apc (thr s cur)) + length (user_apc (thr s cur)))", goal_cases)
  case 1
  show ?case by simp
next
  case (2 env cur flgs s x s1 a s2 s3)
  have d: "thread_dequeue_apc cur (flgs AND SELECT_ALERTABLE = 0) s = (Some a, s1)"
    using 2 by simp
  have "wake_frame s2 s3" unfolding 2 by (rule wake_frame_uk_wake_up)
  then have "apc_list q (thr s3 cur) = apc_list q (thr s2 cur)" for q
    by (rule wake_frame_apc_list)
  from this[of System_apc] this[of User_apc]
  have "system_apc (thr s3 cur) = system_apc (thr s1 cur)"
    and "user_apc (thr s3 cur) = user_apc (thr s1 cur)"
    unfolding 2 by (simp_all add: apc_list_def upd_apc_def)
  with thread_dequeue_apc_shorter[OF d] show ?case
    unfolding 2 by (simp add: release_object_def)
qed

declare select_dequeue.simps [simp del]

record select_reply =
  reply_timeout :: timeout_t
  reply_apc_handle :: obj_handle_t
  reply_call :: "apc_call_t option"

text \<open>The end of the handler, once \<^verbatim>\<open>select_on\<close> has returned with timeout \<open>tmo\<close>.\<close>

definition select_finish :: "'x env \<Rightarrow> int \<Rightarrow> timeout_t \<Rightarrow> 'x server \<Rightarrow> select_reply \<times> 'x server" where
  "select_finish env flgs tmo s =
     (if error s = STATUS_USER_APC then
        (case select_dequeue env (current_thread s) flgs s of
           ((h, c), s1) \<Rightarrow> (\<lparr>reply_timeout = tmo, reply_apc_handle = h, reply_call = c\<rparr>, s1))
      else (\<lparr>reply_timeout = tmo, reply_apc_handle = 0, reply_call = None\<rparr>, s))"

text \<open>
  The handler \<^verbatim>\<open>select\<close>, up to the reply or to the point where the client is parked.
  \<open>req_result\<close> is \<open>None\<close> when the request is too short to hold a result.
\<close>

definition req_select :: "'x env \<Rightarrow> select_request \<Rightarrow> 'x server \<Rightarrow> select_outcome \<times> select_reply option \<times> 'x server" where
  "req_select env req s =
     (case req_result req of
        None \<Rightarrow> (Replied, None, set_error STATUS_INVALID_PARAMETER s)
      | Some res \<Rightarrow>
          (case select_store_result env (req_prev_apc req) res s of
             (False, s1) \<Rightarrow> (Replied, None, s1)
           | (True, s1) \<Rightarrow>
               (case select_on env (length (req_handles req)) (req_cookie req) (req_handles req)
                       (req_flags req) (req_timeout req) (req_signal req) s1 of
                  (tmo, Replied, s2) \<Rightarrow>
                    (case select_finish env (req_flags req) tmo s2 of
                       (rep, s3) \<Rightarrow> (Replied, Some rep, s3))
                | (tmo, outcome, s2) \<Rightarrow> (outcome, None, s2))))"

text \<open>The rest of the handler for a parked call, run when its completion is signalled;
  \<open>objs\<close> and \<open>tmo\<close> are the objects and the timeout the call holds.\<close>

definition req_select_woken :: "'x env \<Rightarrow> select_request \<Rightarrow> object list \<Rightarrow> timeout_t \<Rightarrow> 'x server \<Rightarrow> select_reply \<times> 'x server" where
  "req_select_woken env req objs tmo s =
     select_finish env (req_flags req) tmo (select_resume (req_cookie req) objs s)"



section \<open>What the operations keep\<close>

text \<open>
  Three aspects of the state and, for each, the relation between the state before and the
  state after a step that respects it. Threads and APCs are numbered in the order of their
  allocation, so the records below \<open>next_thread\<close> and \<open>next_apc\<close> are the allocated ones.
  \<^item> \<open>Suspend_counts\<close>: the suspend count of every allocated thread is unchanged, and a
    thread allocated by the step has a count between 0 and \<^verbatim>\<open>MAXIMUM_SUSPEND_COUNT\<close>;
  \<^item> \<open>Dead_threads\<close>: an allocated thread that is \<^verbatim>\<open>TERMINATED\<close> stays so, with the same
    exit time;
  \<^item> \<open>Executed_flags\<close>: an allocated APC that is executed stays executed.
\<close>

datatype aspect = Suspend_counts | Dead_threads | Executed_flags

definition keeps :: "aspect \<Rightarrow> 'x server \<Rightarrow> 'x server \<Rightarrow> bool" where
  "keeps k s s' \<longleftrightarrow>
     next_thread s \<le> next_thread s' \<and> next_apc s \<le> next_apc s' \<and>
     (case k of
        Suspend_counts \<Rightarrow>
          (\<forall>t<next_thread s. suspend (thr s' t) = suspend (thr s t)) \<and>
          (\<forall>t. next_thread s \<le> t \<and> t < next_thread s' \<longrightarrow>
             0 \<le> suspend (thr s' t) \<and> suspend (thr s' t) \<le> MAXIMUM_SUSPEND_COUNT)
      | Dead_threads \<Rightarrow>
          (\<forall>t<next_thread s. state (thr s t) = TERMINATED \<longrightarrow>
             state (thr s' t) = TERMINATED \<and> exit_time (thr s' t) = exit_time (thr s t))
      | Executed_flags \<Rightarrow>
          (\<forall>a<next_apc s. executed (apcs s a) \<longrightarrow> executed (apcs s' a)))"

text \<open>The operations of other files respect an aspect.\<close>

definition env_keeps :: "aspect \<Rightarrow> 'x env \<Rightarrow> bool" where
  "env_keeps k env \<longleftrightarrow>
     (\<forall>c t s. keeps k s (collab env c t s)) \<and>
     (\<forall>n access s. keeps k s (snd (obj_signal env n access s))) \<and>
     (\<forall>p obj access s. keeps k s (snd (alloc_handle env p obj access s)))"

lemma keeps_refl [simp]: "keeps k s s"
  by (cases k) (simp_all add: keeps_def)

lemma keeps_trans: "keeps k s s1 \<Longrightarrow> keeps k s1 s2 \<Longrightarrow> keeps k s s2"
proof (cases k)
  case Suspend_counts
  assume a: "keeps k s s1" "keeps k s1 s2"
  show ?thesis
    unfolding keeps_def Suspend_counts aspect.case
  proof (intro conjI allI impI)
    show "next_thread s \<le> next_thread s2" "next_apc s \<le> next_apc s2"
      using a by (auto simp: keeps_def)
  next
    fix t assume "t < next_thread s"
    then show "suspend (thr s2 t) = suspend (thr s t)"
      using a unfolding keeps_def Suspend_counts aspect.case
      by (metis less_le_trans)
  next
    fix t assume t: "next_thread s \<le> t \<and> t < next_thread s2"
    show "0 \<le> suspend (thr s2 t)" "suspend (thr s2 t) \<le> MAXIMUM_SUSPEND_COUNT"
      using a t unfolding keeps_def Suspend_counts aspect.case
      by (metis not_le_imp_less)+
  qed
next
  case Dead_threads
  assume a: "keeps k s s1" "keeps k s1 s2"
  show ?thesis
    using a unfolding keeps_def Dead_threads aspect.case
    by (metis less_le_trans order_trans)
next
  case Executed_flags
  assume a: "keeps k s s1" "keeps k s1 s2"
  show ?thesis
    using a unfolding keeps_def Executed_flags aspect.case
    by (metis less_le_trans order_trans)
qed

lemma unwoken_fields:
  "unwoken th' = unwoken th \<Longrightarrow>
   suspend th' = suspend th \<and> state th' = state th \<and> exit_time th' = exit_time th \<and>
   process th' = process th \<and> system_apc th' = system_apc th \<and> user_apc th' = user_apc th \<and>
   thread_context th' = thread_context th \<and> exit_code th' = exit_code th"
proof -
  assume a: "unwoken th' = unwoken th"
  have "suspend (unwoken th') = suspend (unwoken th)" "state (unwoken th') = state (unwoken th)"
    "exit_time (unwoken th') = exit_time (unwoken th)" "process (unwoken th') = process (unwoken th)"
    "system_apc (unwoken th') = system_apc (unwoken th)"
    "user_apc (unwoken th') = user_apc (unwoken th)"
    "thread_context (unwoken th') = thread_context (unwoken th)"
    "exit_code (unwoken th') = exit_code (unwoken th)"
    using a by simp_all
  then show ?thesis by (simp add: unwoken_def)
qed

lemma keeps_wake_frame: "wake_frame s s' \<Longrightarrow> keeps k s s'"
proof -
  assume a: "wake_frame s s'"
  then have "\<forall>t. unwoken (thr s' t) = unwoken (thr s t)" by (simp add: wake_frame_def)
  then have "\<forall>t. suspend (thr s' t) = suspend (thr s t) \<and> state (thr s' t) = state (thr s t) \<and>
     exit_time (thr s' t) = exit_time (thr s t)"
    using unwoken_fields by blast
  moreover have "next_thread s' = next_thread s" "next_apc s' = next_apc s" "apcs s' = apcs s"
    using a by (simp_all add: wake_frame_def)
  ultimately show ?thesis by (cases k) (simp_all add: keeps_def)
qed

lemma keeps_upd_thread:
  "suspend (f (thr s t)) = suspend (thr s t) \<Longrightarrow>
   (state (thr s t) = TERMINATED \<longrightarrow>
      state (f (thr s t)) = TERMINATED \<and> exit_time (f (thr s t)) = exit_time (thr s t)) \<Longrightarrow>
   keeps k s (upd_thread t f s)"
  by (cases k) (simp_all add: keeps_def upd_thread_def)

lemma keeps_upd_apc:
  "(executed (apcs s a) \<longrightarrow> executed (f (apcs s a))) \<Longrightarrow> keeps k s (upd_apc a f s)"
  by (cases k) (simp_all add: keeps_def upd_apc_def)

lemma keeps_set_error: "keeps k s (set_error e s)"
  by (cases k) (simp_all add: keeps_def set_error_def)

lemma keeps_grab_object: "keeps k s (grab_object obj s)"
  by (cases k) (simp_all add: keeps_def grab_object_def)

lemma keeps_release_object: "keeps k s (release_object obj s)"
  by (cases k) (simp_all add: keeps_def release_object_def)

lemma keeps_send_thread_signal: "keeps k s (snd (send_thread_signal env t sig s))"
  by (cases k) (simp_all add: keeps_def send_thread_signal_def)

lemma keeps_remove_timeout_user: "keeps k s (remove_timeout_user u s)"
  by (cases k) (simp_all add: keeps_def remove_timeout_user_def)

lemma keeps_add_timeout_user: "keeps k s (snd (add_timeout_user env when t lvl s))"
  by (cases k) (simp_all add: keeps_def add_timeout_user_def)

lemma keeps_collab: "env_keeps k env \<Longrightarrow> keeps k s (collab env c t s)"
  by (simp add: env_keeps_def)

lemma keeps_obj_signal: "env_keeps k env \<Longrightarrow> keeps k s (snd (obj_signal env n access s))"
  by (simp add: env_keeps_def)

lemma keeps_alloc_handle: "env_keeps k env \<Longrightarrow> keeps k s (snd (alloc_handle env p obj access s))"
  by (simp add: env_keeps_def)

lemma keeps_check_wait: "check_wait env t s = Some (r, s') \<Longrightarrow> keeps k s s'"
  by (rule keeps_wake_frame) (rule wake_frame_check_wait)

lemma keeps_end_wait: "end_wait t s = Some s' \<Longrightarrow> keeps k s s'"
  by (rule keeps_wake_frame) (rule wake_frame_end_wait)

lemma keeps_wake_thread: "keeps k s (snd (wake_thread env t s))"
  by (rule keeps_wake_frame) (metis wake_frame_wake_thread prod.collapse)

lemma keeps_uk_wake_up: "keeps k s (uk_wake_up env obj mx s)"
  by (rule keeps_wake_frame) (rule wake_frame_uk_wake_up)

lemma keeps_send_thread_wakeup: "keeps k s (snd (send_thread_wakeup t ck sg s))"
  by (rule keeps_wake_frame) (rule wake_frame_send_thread_wakeup)

lemma wake_frame_end_all_waits: "wake_frame s (end_all_waits t s)"
proof (induction t s rule: end_all_waits.induct)
  case (1 t s)
  show ?case
  proof (cases "wait (thr s t) = []")
    case True
    then show ?thesis by (simp add: end_all_waits.simps)
  next
    case False
    show ?thesis
    proof (cases "end_wait t s")
      case None
      with False show ?thesis by (simp add: end_all_waits.simps)
    next
      case (Some s1)
      have "wake_frame s s1" using Some by (rule wake_frame_end_wait)
      moreover have "wake_frame s1 (end_all_waits t s1)" using "1.IH" False Some by simp
      ultimately show ?thesis
        using False Some by (subst end_all_waits.simps) (auto intro: wake_frame_trans)
    qed
  qed
qed

lemma keeps_end_all_waits: "keeps k s (end_all_waits t s)"
  by (rule keeps_wake_frame) (rule wake_frame_end_all_waits)


lemmas keeps_chain =
  keeps_trans[OF _ keeps_set_error] keeps_trans[OF _ keeps_grab_object]
  keeps_trans[OF _ keeps_release_object] keeps_trans[OF _ keeps_send_thread_signal]
  keeps_trans[OF _ keeps_remove_timeout_user] keeps_trans[OF _ keeps_add_timeout_user]
  keeps_trans[OF _ keeps_wake_thread] keeps_trans[OF _ keeps_uk_wake_up]
  keeps_trans[OF _ keeps_send_thread_wakeup] keeps_trans[OF _ keeps_end_all_waits]
  keeps_trans[OF _ keeps_upd_thread] keeps_trans[OF _ keeps_upd_apc]
  keeps_trans[OF _ keeps_collab] keeps_trans[OF _ keeps_obj_signal]
  keeps_trans[OF _ keeps_alloc_handle]

lemma keeps_add_queue: "keeps k s (snd (add_queue obj e s))"
  by (cases k) (simp_all add: keeps_def add_queue_def grab_object_def Let_def)

lemma keeps_ops_add_queue: "keeps k s (snd (ops_add_queue env obj e s))"
  by (auto simp: ops_add_queue_def keeps_add_queue keeps_set_error split: object.splits option.splits)

lemma keeps_add_entries: "keeps k s (snd (add_entries env t lvl i objs s))"
proof (induction objs arbitrary: i s)
  case Nil
  show ?case by simp
next
  case (Cons obj objs)
  let ?e = "\<lparr>e_thread = t, e_level = lvl, e_index = i\<rparr>"
  obtain b s1 where b: "ops_add_queue env obj ?e s = (b, s1)" by (cases "ops_add_queue env obj ?e s")
  have 1: "keeps k s s1" using keeps_ops_add_queue[of k s env obj ?e] b by simp
  show ?case
  proof (cases b)
    case True
    have "keeps k s1 (snd (add_entries env t lvl (Suc i) objs s1))" by (rule Cons.IH)
    with True b 1 show ?thesis by (auto intro: keeps_trans)
  next
    case False
    with b 1 show ?thesis by simp
  qed
qed

lemma keeps_wait_on: "keeps k s (snd (wait_on env count objs flgs tmo s))"
proof (cases "alloc_ok env (ext s)")
  case False
  then show ?thesis by (simp add: wait_on_def keeps_set_error)
next
  case True
  let ?t = "current_thread s"
  let ?w = "\<lparr>flags = flgs, cookie = 0, timeout = tmo, user = None, queues = take count objs\<rparr>"
  let ?s1 = "upd_thread ?t (\<lambda>th. th\<lparr>wait := ?w # wait th\<rparr>) s"
  obtain r s2 where r: "add_entries env ?t (length (wait (thr s ?t))) 0 (take count objs) ?s1 = (r, s2)"
    by (cases "add_entries env ?t (length (wait (thr s ?t))) 0 (take count objs) ?s1")
  have 1: "keeps k s ?s1" by (rule keeps_upd_thread) simp_all
  have 2: "keeps k ?s1 s2"
    using keeps_add_entries[of k ?s1 env ?t "length (wait (thr s ?t))" 0 "take count objs"] r
    by simp
  have 12: "keeps k s s2" using 1 2 by (rule keeps_trans)
  show ?thesis
  proof (cases r)
    case None
    with True r 12 show ?thesis by (simp add: wait_on_def Let_def)
  next
    case (Some i)
    let ?s3 = "upd_thread ?t (\<lambda>th. th\<lparr>wait :=
                 (case wait th of [] \<Rightarrow> [] | w' # ws \<Rightarrow> w'\<lparr>queues := take i (queues w')\<rparr> # ws)\<rparr>) s2"
    have 3: "keeps k s ?s3" by (rule keeps_trans[OF 12 keeps_upd_thread]) simp_all
    show ?thesis
    proof (cases "end_wait ?t ?s3")
      case None
      with True r Some 3 show ?thesis by (simp add: wait_on_def Let_def)
    next
      case (Some s4)
      then have "keeps k ?s3 s4" by (rule keeps_end_wait)
      with 3 have "keeps k s s4" by (rule keeps_trans)
      with True r \<open>r = Some i\<close> Some show ?thesis by (simp add: wait_on_def Let_def)
    qed
  qed
qed

lemma keeps_create_apc: "keeps k s (snd (create_apc env own call_data s))"
proof -
  let ?a = "next_apc s"
  let ?s1 = "s\<lparr>apcs := (apcs s)(?a := \<lparr>caller = None, owner = own, executed = False,
                     call = call_data, result = \<lparr>result_type = APC_NONE, result_data = 0\<rparr>\<rparr>),
               next_apc := Suc ?a, grabs := (grabs s)(Apc_obj ?a := 1)\<rparr>"
  have 1: "keeps k s ?s1" by (cases k) (simp_all add: keeps_def)
  show ?thesis
    using 1 keeps_trans[OF 1 keeps_grab_object]
    by (auto simp: create_apc_def Let_def keeps_set_error split: option.splits)
qed

lemma set_apc_list_fields [simp]:
  "suspend (set_apc_list q l th) = suspend th"
  "state (set_apc_list q l th) = state th"
  "exit_time (set_apc_list q l th) = exit_time th"
  "wait (set_apc_list q l th) = wait th"
  "process (set_apc_list q l th) = process th"
  by (cases q; simp add: set_apc_list_def)+

lemma keeps_cancel_scan: "keeps k s (cancel_scan env t q own pre l s)"
proof (induction l arbitrary: pre)
  case Nil
  show ?case by simp
next
  case (Cons a rest)
  show ?case
  proof (cases "owner (apcs s a) \<noteq> own")
    case True
    with Cons.IH show ?thesis by simp
  next
    case False
    then show ?thesis
      by (simp add: Let_def) (intro keeps_chain keeps_refl; simp)
  qed
qed

lemma keeps_thread_cancel_apc: "keeps k s (thread_cancel_apc env t own type s)"
  by (simp add: thread_cancel_apc_def keeps_cancel_scan)

lemma keeps_append_apc: "keeps k s (append_apc env t q a s)"
  unfolding append_apc_def Let_def
  by (auto intro!: keeps_chain keeps_refl)

lemma keeps_find_signalable: "keeps k s (snd (find_signalable env cs s))"
proof (induction cs arbitrary: s)
  case Nil
  show ?case by simp
next
  case (Cons c cs)
  obtain b s1 where b: "send_thread_signal env c SIGUSR1 s = (b, s1)"
    by (cases "send_thread_signal env c SIGUSR1 s")
  have 1: "keeps k s s1" using keeps_send_thread_signal[of k s env c SIGUSR1] b by simp
  show ?case
  proof (cases b)
    case True
    with b 1 show ?thesis by simp
  next
    case False
    have "keeps k s1 (snd (find_signalable env cs s1))" by (rule Cons.IH)
    with False b 1 show ?thesis by (auto intro: keeps_trans)
  qed
qed

lemma keeps_queue_apc: "queue_apc env proc thread a s = Some (r, s') \<Longrightarrow> keeps k s s'"
proof (cases thread)
  case None
  assume q: "queue_apc env proc thread a s = Some (r, s')"
  then obtain p where p: "proc = Some p" using None by (cases proc) (auto simp: queue_apc_def)
  show ?thesis
  proof (cases "find_waiting s (thread_list (procs s p))")
    case (Some t)
    with q None p show ?thesis by (auto simp: queue_apc_def keeps_append_apc)
  next
    case fw: None
    obtain r1 s1 where f: "find_signalable env (thread_list (procs s p)) s = (r1, s1)"
      by (cases "find_signalable env (thread_list (procs s p)) s")
    have 1: "keeps k s s1" using keeps_find_signalable[of k s env "thread_list (procs s p)"] f by simp
    show ?thesis
      using q None p fw f 1 keeps_trans[OF 1 keeps_append_apc]
      by (auto simp: queue_apc_def split: option.splits)
  qed
next
  case (Some t)
  assume q: "queue_apc env proc thread a s = Some (r, s')"
  show ?thesis
  proof (cases "state (thr s t) = TERMINATED")
    case True
    with q Some show ?thesis by (simp add: queue_apc_def)
  next
    case False
    let ?q = "get_apc_queue (call_type (call (apcs s a)))"
    let ?sig = "if ?q = System_apc \<and> apc_list ?q (thr s t) = [] \<and> \<not> is_in_apc_wait s t
                then send_thread_signal env t SIGUSR1 s else (True, s)"
    obtain b s1 where b: "?sig = (b, s1)" by (cases ?sig)
    have 1: "keeps k s s1"
      using b keeps_send_thread_signal[of k s env t SIGUSR1] by (auto split: if_splits)
    show ?thesis
    proof (cases b)
      case bf: False
      with q Some False b 1 show ?thesis by (simp add: queue_apc_def Let_def)
    next
      case True
      let ?s2 = "case owner (apcs s1 a) of None \<Rightarrow> s1
                 | Some obj \<Rightarrow> thread_cancel_apc env t (Some obj) (call_type (call (apcs s1 a))) s1"
      have 2: "keeps k s1 ?s2" by (auto split: option.splits simp: keeps_thread_cancel_apc)
      have "s' = append_apc env t ?q a ?s2"
        using q Some False b True by (simp add: queue_apc_def Let_def)
      then show ?thesis using 1 2 keeps_append_apc by (blast intro: keeps_trans)
    qed
  qed
qed

lemma keeps_thread_queue_apc:
  "thread_queue_apc env thread own call_data s = Some (r, s') \<Longrightarrow> keeps k s s'"
proof -
  assume a: "thread_queue_apc env thread own call_data s = Some (r, s')"
  obtain x s1 where c: "create_apc env own call_data s = (x, s1)"
    by (cases "create_apc env own call_data s")
  have 1: "keeps k s s1" using keeps_create_apc[of k s env own call_data] c by simp
  show ?thesis
  proof (cases x)
    case None
    with a c 1 show ?thesis by (simp add: thread_queue_apc_def)
  next
    case (Some apc)
    with a c obtain s2 where q: "queue_apc env None thread apc s1 = Some (r, s2)"
      and s': "s' = release_object (Apc_obj apc) s2"
      by (auto simp: thread_queue_apc_def split: option.splits)
    have "keeps k s1 s2" using q by (rule keeps_queue_apc)
    with 1 show ?thesis unfolding s' by (blast intro: keeps_trans keeps_release_object)
  qed
qed

lemma keeps_thread_dequeue_apc: "keeps k s (snd (thread_dequeue_apc t so s))"
  by (auto simp: thread_dequeue_apc_def split: list.splits intro!: keeps_upd_thread)


lemma keeps_clear_apc_queue: "keeps k s (clear_apc_queue env t q s)"
proof (induction env t q s rule: clear_apc_queue.induct)
  case (1 env t q s)
  show ?case
  proof (cases "apc_list q (thr s t)")
    case Nil
    then show ?thesis by (simp add: clear_apc_queue.simps)
  next
    case (Cons a rest)
    let ?s1 = "upd_thread t (set_apc_list q rest) s"
    let ?s2 = "upd_apc a (\<lambda>apc. apc\<lparr>executed := True\<rparr>) ?s1"
    let ?s3 = "uk_wake_up env (Apc_obj a) 0 ?s2"
    let ?s4 = "release_object (Apc_obj a) ?s3"
    have "keeps k s ?s4" by (intro keeps_chain keeps_refl; simp)
    moreover have "keeps k ?s4 (clear_apc_queue env t q ?s4)"
      using "1.IH"[OF Cons refl refl refl] .
    ultimately show ?thesis
      using Cons by (subst clear_apc_queue.simps) (auto simp: Let_def intro: keeps_trans)
  qed
qed

lemma keeps_select_dequeue:
  "env_keeps k env \<Longrightarrow> keeps k s (snd (select_dequeue env cur flgs s))"
proof (induction env cur flgs s rule: select_dequeue.induct)
  case (1 env cur flgs s)
  obtain x s1 where d: "thread_dequeue_apc cur (flgs AND SELECT_ALERTABLE = 0) s = (x, s1)"
    by (cases "thread_dequeue_apc cur (flgs AND SELECT_ALERTABLE = 0) s")
  have 0: "keeps k s s1"
    using keeps_thread_dequeue_apc[of k s cur "flgs AND SELECT_ALERTABLE = 0"] d by simp
  show ?case
  proof (cases x)
    case None
    with d 0 show ?thesis by (subst select_dequeue.simps) simp
  next
    case (Some a)
    show ?thesis
    proof (cases "call_type (call (apcs s1 a)) \<noteq> APC_NONE")
      case True
      obtain h s2 where h: "alloc_handle env (process (thr s1 cur)) (Apc_obj a) SYNCHRONIZE s1 = (h, s2)"
        by (cases "alloc_handle env (process (thr s1 cur)) (Apc_obj a) SYNCHRONIZE s1")
      have "keeps k s1 s2"
        using keeps_alloc_handle[OF "1.prems", of s1 "process (thr s1 cur)" "Apc_obj a" SYNCHRONIZE] h
        by simp
      with 0 have "keeps k s (release_object (Apc_obj a) s2)"
        by (blast intro: keeps_trans keeps_release_object)
      with d Some True h show ?thesis by (subst select_dequeue.simps) simp
    next
      case False
      let ?s2 = "upd_apc a (\<lambda>apc. apc\<lparr>executed := True\<rparr>) s1"
      let ?s3 = "uk_wake_up env (Apc_obj a) 0 ?s2"
      let ?s4 = "release_object (Apc_obj a) ?s3"
      have "keeps k s ?s4" by (intro keeps_chain keeps_refl 0; simp)
      moreover have "keeps k ?s4 (snd (select_dequeue env cur flgs ?s4))"
        using "1.IH"[OF d[symmetric] Some False refl refl "1.prems"] .
      ultimately show ?thesis
        using d Some False by (subst select_dequeue.simps) (auto simp: Let_def intro: keeps_trans)
    qed
  qed
qed

lemma keeps_get_handle_obj: "keeps k s (snd (get_handle_obj env p h access ao s))"
  by (auto simp: get_handle_obj_def keeps_set_error keeps_grab_object split: sum.splits)

lemma keeps_signal_object: "env_keeps k env \<Longrightarrow> keeps k s (snd (signal_object env h s))"
proof -
  assume e: "env_keeps k env"
  let ?p = "process (thr s (current_thread s))"
  obtain x s1 where g: "get_handle_obj env ?p h 0 False s = (x, s1)"
    by (cases "get_handle_obj env ?p h 0 False s")
  have 1: "keeps k s s1" using keeps_get_handle_obj[of k s env ?p h 0 False] g by simp
  show ?thesis
  proof (cases x)
    case None
    with g 1 show ?thesis by (simp add: signal_object_def Let_def)
  next
    case (Some obj)
    have "keeps k s1 (snd (ops_signal env obj (get_handle_access env ?p h (ext s1)) s1))"
      using e by (auto simp: ops_signal_def keeps_set_error keeps_obj_signal split: object.splits)
    then have "keeps k s (release_object obj (snd (ops_signal env obj (get_handle_access env ?p h (ext s1)) s1)))"
      using 1 by (blast intro: keeps_trans keeps_release_object)
    with g Some show ?thesis by (auto simp: signal_object_def Let_def split: prod.splits)
  qed
qed

lemma keeps_resolve_handles: "keeps k s (snd (resolve_handles env p hs s))"
proof (induction hs arbitrary: s)
  case Nil
  show ?case by simp
next
  case (Cons h hs)
  obtain x s1 where g: "get_handle_obj env p h SYNCHRONIZE False s = (x, s1)"
    by (cases "get_handle_obj env p h SYNCHRONIZE False s")
  have 1: "keeps k s s1" using keeps_get_handle_obj[of k s env p h SYNCHRONIZE False] g by simp
  show ?case
  proof (cases x)
    case None
    with g 1 show ?thesis by simp
  next
    case (Some obj)
    have "keeps k s1 (snd (resolve_handles env p hs s1))" by (rule Cons.IH)
    with 1 have "keeps k s (snd (resolve_handles env p hs s1))" by (rule keeps_trans)
    with g Some show ?thesis by (auto split: prod.splits)
  qed
qed

lemma keeps_fold_release: "keeps k s (fold release_object objs s)"
proof (induction objs arbitrary: s)
  case Nil
  show ?case by simp
next
  case (Cons obj objs)
  have "keeps k (release_object obj s) (fold release_object objs (release_object obj s))"
    by (rule Cons.IH)
  then show ?case using keeps_release_object by (auto intro: keeps_trans)
qed

lemma keeps_release_objects: "keeps k s (release_objects objs s)"
  by (simp add: release_objects_def keeps_fold_release)

lemmas keeps_chain2 = keeps_chain keeps_trans[OF _ keeps_release_objects]

lemma keeps_select_evaluate:
  "keeps k s (snd (snd (select_evaluate env cur ck tmo objs s)))"
proof (cases "check_wait env cur s")
  case None
  then show ?thesis by (simp add: select_evaluate_def)
next
  case (Some x)
  obtain ret s1 where x: "x = (ret, s1)" by (cases x)
  have 1: "keeps k s s1" using Some x keeps_check_wait by blast
  show ?thesis
  proof (cases "ret \<noteq> - 1")
    case True
    show ?thesis
    proof (cases "end_wait cur s1")
      case None
      with Some x True 1 show ?thesis by (simp add: select_evaluate_def)
    next
      case s2: (Some s2)
      then have "keeps k s1 s2" by (rule keeps_end_wait)
      with 1 have "keeps k s s2" by (rule keeps_trans)
      then have "keeps k s (release_objects objs (set_error ret s2))"
        by (intro keeps_chain2)
      with Some x True s2 show ?thesis by (simp add: select_evaluate_def)
    qed
  next
    case False
    show ?thesis
    proof (cases "wait (thr s1 cur)")
      case Nil
      with Some x False 1 show ?thesis by (simp add: select_evaluate_def)
    next
      case (Cons w ws)
      show ?thesis
      proof (cases "timeout w \<noteq> TIMEOUT_INFINITE")
        case inf: False
        have "keeps k s (upd_thread cur (\<lambda>th. th\<lparr>wait := w\<lparr>cookie := ck\<rparr> # ws\<rparr>) s1)"
          by (intro keeps_chain 1; simp)
        with Some x False Cons inf show ?thesis by (simp add: select_evaluate_def)
      next
        case True
        obtain u s2 where t: "add_timeout_user env (timeout w) cur (length ws) s1 = (u, s2)"
          by (cases "add_timeout_user env (timeout w) cur (length ws) s1")
        have "keeps k s1 s2"
          using keeps_add_timeout_user[of k s1 env "timeout w" cur "length ws"] t by simp
        with 1 have 2: "keeps k s s2" by (rule keeps_trans)
        show ?thesis
        proof (cases u)
          case (Some uid)
          have "keeps k s (upd_thread cur (\<lambda>th. th\<lparr>wait := w\<lparr>user := Some uid, cookie := ck\<rparr> # ws\<rparr>) s2)"
            by (intro keeps_chain 2; simp)
          with \<open>check_wait env cur s = Some x\<close> x False Cons True t Some show ?thesis
            by (simp add: select_evaluate_def)
        next
          case None
          show ?thesis
          proof (cases "end_wait cur s2")
            case e: None
            with \<open>check_wait env cur s = Some x\<close> x False Cons True t None 2 show ?thesis
              by (simp add: select_evaluate_def)
          next
            case (Some s3)
            then have "keeps k s2 s3" by (rule keeps_end_wait)
            with 2 have "keeps k s s3" by (rule keeps_trans)
            then have "keeps k s (release_objects objs s3)" by (intro keeps_chain2)
            with \<open>check_wait env cur s = Some x\<close> x False Cons True t None Some show ?thesis
              by (simp add: select_evaluate_def)
          qed
        qed
      qed
    qed
  qed
qed


lemma keeps_select_on:
  assumes e: "env_keeps k env"
  shows "keeps k s (snd (snd (select_on env count ck handles flgs tmo0 sig s)))"
proof (cases "count > MAXIMUM_WAIT_OBJECTS")
  case True
  then show ?thesis by (simp add: select_on_def Let_def keeps_set_error)
next
  case False
  let ?cur = "current_thread s"
  let ?tmo = "if sint tmo0 \<le> 0 then current_time s - tmo0 else tmo0"
  obtain objs s1 where r: "resolve_handles env (process (thr s ?cur)) (take count handles) s = (objs, s1)"
    by (cases "resolve_handles env (process (thr s ?cur)) (take count handles) s")
  have 1: "keeps k s s1"
    using keeps_resolve_handles[of k s env "process (thr s ?cur)" "take count handles"] r by simp
  show ?thesis
  proof (cases "length objs < count")
    case True
    have "keeps k s (release_objects objs s1)" by (intro keeps_chain2 1)
    with False r True show ?thesis by (simp add: select_on_def Let_def)
  next
    case len: False
    obtain b s2 where w: "wait_on env count objs flgs ?tmo s1 = (b, s2)"
      by (cases "wait_on env count objs flgs ?tmo s1")
    have "keeps k s1 s2" using keeps_wait_on[of k s1 env count objs flgs ?tmo] w by simp
    with 1 have 2: "keeps k s s2" by (rule keeps_trans)
    show ?thesis
    proof (cases b)
      case bf: False
      have "keeps k s (release_objects objs s2)" by (intro keeps_chain2 2)
      with False r len w bf show ?thesis by (simp add: select_on_def Let_def)
    next
      case True
      have ev: "keeps k s (snd (snd (select_evaluate env ?cur ck ?tmo objs s')))"
        if "keeps k s s'" for s'
        using that keeps_select_evaluate by (blast intro: keeps_trans)
      show ?thesis
      proof (cases "sig \<noteq> 0")
        case nosig: False
        with False r len w True ev[OF 2] show ?thesis by (simp add: select_on_def Let_def)
      next
        case sg: True
        obtain c s3 where so: "signal_object env sig s2 = (c, s3)"
          by (cases "signal_object env sig s2")
        have "keeps k s2 s3" using keeps_signal_object[OF e, of s2 sig] so by simp
        with 2 have 3: "keeps k s s3" by (rule keeps_trans)
        show ?thesis
        proof (cases c)
          case True
          have "keeps k s (release_objects objs s3)" by (intro keeps_chain2 3)
          with False r len w \<open>b\<close> sg so True ev[OF 3] show ?thesis
            by (simp add: select_on_def Let_def)
        next
          case cf: False
          show ?thesis
          proof (cases "end_wait ?cur s3")
            case None
            with False r len w \<open>b\<close> sg so cf 3 show ?thesis by (simp add: select_on_def Let_def)
          next
            case (Some s4)
            then have "keeps k s3 s4" by (rule keeps_end_wait)
            with 3 have "keeps k s s4" by (rule keeps_trans)
            then have "keeps k s (release_objects objs s4)" by (intro keeps_chain2)
            with False r len w \<open>b\<close> sg so cf Some show ?thesis
              by (simp add: select_on_def Let_def)
          qed
        qed
      qed
    qed
  qed
qed

lemma keeps_select_resume: "keeps k s (select_resume ck objs s)"
  unfolding select_resume_def Let_def
  by (auto intro!: keeps_chain2 keeps_refl)

lemma keeps_select_store_result:
  assumes e: "env_keeps k env"
  shows "keeps k s (snd (select_store_result env prev_apc res s))"
proof (cases "prev_apc = 0")
  case True
  then show ?thesis by (simp add: select_store_result_def)
next
  case False
  let ?cur = "current_thread s"
  obtain x s1 where g: "get_handle_obj env (process (thr s ?cur)) prev_apc 0 True s = (x, s1)"
    by (cases "get_handle_obj env (process (thr s ?cur)) prev_apc 0 True s")
  have 1: "keeps k s s1"
    using keeps_get_handle_obj[of k s env "process (thr s ?cur)" prev_apc 0 True] g by simp
  show ?thesis
  proof (cases "\<exists>a. x = Some (Apc_obj a)")
    case nf: False
    with False g 1 show ?thesis
      by (auto simp: select_store_result_def Let_def split: option.splits object.splits)
  next
    case True
    then obtain a where a: "x = Some (Apc_obj a)" by blast
    let ?s2 = "upd_apc a (\<lambda>apc. apc\<lparr>result := res, executed := True\<rparr>) s1"
    let ?s3 = "if result_type (result (apcs ?s2 a)) = APC_CREATE_THREAD
               then set_error 0 (collab env (Transfer_thread_handle a) ?cur ?s2)
               else if result_type (result (apcs ?s2 a)) = APC_ASYNC_IO
               then (if owner (apcs ?s2 a) \<noteq> None
                     then collab env (Async_set_result a) ?cur ?s2 else ?s2)
               else ?s2"
    have 2: "keeps k s ?s2" by (intro keeps_chain 1; simp)
    have 3: "keeps k s ?s3"
      using 2 e by (auto intro!: keeps_chain)
    have "keeps k s (release_object (Apc_obj a)
                       (collab env (Close_handle prev_apc) ?cur (uk_wake_up env (Apc_obj a) 0 ?s3)))"
      using e by (intro keeps_chain 3)
    with False g a show ?thesis by (simp add: select_store_result_def Let_def)
  qed
qed

lemma keeps_select_finish:
  "env_keeps k env \<Longrightarrow> keeps k s (snd (select_finish env flgs tmo s))"
  using keeps_select_dequeue[of k env s "current_thread s" flgs]
  by (auto simp: select_finish_def split: prod.splits)

lemma keeps_req_select:
  assumes e: "env_keeps k env"
  shows "keeps k s (snd (snd (req_select env req s)))"
proof (cases "req_result req")
  case None
  then show ?thesis by (simp add: req_select_def keeps_set_error)
next
  case (Some res)
  obtain b s1 where st: "select_store_result env (req_prev_apc req) res s = (b, s1)"
    by (cases "select_store_result env (req_prev_apc req) res s")
  have 1: "keeps k s s1" using keeps_select_store_result[OF e, of s "req_prev_apc req" res] st by simp
  show ?thesis
  proof (cases b)
    case False
    with Some st 1 show ?thesis by (simp add: req_select_def)
  next
    case True
    obtain tmo out s2 where so: "select_on env (length (req_handles req)) (req_cookie req)
        (req_handles req) (req_flags req) (req_timeout req) (req_signal req) s1 = (tmo, out, s2)"
      by (metis prod_cases3)
    have "keeps k s1 s2"
      using keeps_select_on[OF e, of s1 "length (req_handles req)" "req_cookie req" "req_handles req"
          "req_flags req" "req_timeout req" "req_signal req"] so by simp
    with 1 have 2: "keeps k s s2" by (rule keeps_trans)
    have "keeps k s (snd (select_finish env (req_flags req) tmo s2))"
      using 2 keeps_select_finish[OF e] by (blast intro: keeps_trans)
    with Some st True so 2 show ?thesis
      by (cases out) (auto simp: req_select_def split: prod.splits)
  qed
qed

lemma keeps_req_select_woken:
  "env_keeps k env \<Longrightarrow> keeps k s (snd (req_select_woken env req objs tmo s))"
  unfolding req_select_woken_def
  using keeps_select_resume keeps_select_finish by (blast intro: keeps_trans)

lemma keeps_stop_thread: "keeps k s (stop_thread env t s)"
  by (simp add: stop_thread_def keeps_send_thread_signal)

lemma keeps_cleanup_thread: "env_keeps k env \<Longrightarrow> keeps k s (cleanup_thread env t s)"
  unfolding cleanup_thread_def Let_def
  by (intro keeps_chain keeps_trans[OF _ keeps_clear_apc_queue] keeps_refl; simp)

lemma keeps_kill_thread:
  assumes e: "env_keeps k env"
  shows "keeps k s (kill_thread env t violent s)"
proof (cases "state (thr s t) = TERMINATED")
  case True
  then show ?thesis by (simp add: kill_thread_def)
next
  case False
  let ?s1 = "upd_thread t (\<lambda>th. th\<lparr>state := TERMINATED, exit_time := current_time s\<rparr>) s"
  have 1: "keeps k s ?s1" using False by (intro keeps_upd_thread) simp_all
  show ?thesis
    using False e unfolding kill_thread_def Let_def
    by (auto intro!: keeps_chain keeps_trans[OF _ keeps_cleanup_thread] 1)
qed

lemma keeps_create_thread: "env_keeps k env \<Longrightarrow> keeps k s (snd (create_thread env p s))"
proof -
  assume e: "env_keeps k env"
  let ?t = "next_thread s"
  let ?s1 = "s\<lparr>thr := (thr s)(?t := init_thread_structure p (current_time s)),
               next_thread := Suc ?t, grabs := (grabs s)(Thread_obj ?t := 1)\<rparr>"
  have "keeps k s ?s1"
    by (cases k) (auto simp: keeps_def init_thread_structure_def MAXIMUM_SUSPEND_COUNT_def
                        less_Suc_eq_le)
  then have "keeps k s (collab env Add_process_thread ?t ?s1)"
    using e by (intro keeps_chain)
  then show ?thesis by (simp add: create_thread_def Let_def keeps_set_error)
qed


lemma keeps_upd_thread_new:
  "keeps k s s1 \<Longrightarrow> next_thread s \<le> t \<Longrightarrow> t < next_thread s1 \<Longrightarrow>
   (k = Suspend_counts \<longrightarrow>
      0 \<le> suspend (f (thr s1 t)) \<and> suspend (f (thr s1 t)) \<le> MAXIMUM_SUSPEND_COUNT) \<Longrightarrow>
   keeps k s (upd_thread t f s1)"
  by (cases k) (auto simp: keeps_def upd_thread_def)

lemma create_thread_new:
  assumes "create_thread env p s = (Some t, s1)"
  shows "t = next_thread s" and "env_keeps k env \<Longrightarrow> t < next_thread s1"
    and "env_keeps Suspend_counts env \<Longrightarrow> suspend (thr s1 t) = 0"
proof -
  let ?t = "next_thread s"
  let ?s1 = "s\<lparr>thr := (thr s)(?t := init_thread_structure p (current_time s)),
               next_thread := Suc ?t, grabs := (grabs s)(Thread_obj ?t := 1)\<rparr>"
  have eq: "t = ?t" "s1 = collab env Add_process_thread ?t ?s1"
    using assms by (auto simp: create_thread_def Let_def split: if_splits)
  show "t = next_thread s" by (rule eq)
  {
    assume "env_keeps k env"
    then have "keeps k ?s1 s1" unfolding eq by (rule keeps_collab)
    then have "next_thread ?s1 \<le> next_thread s1" by (simp add: keeps_def)
    then show "t < next_thread s1" using eq by simp
  }
  {
    assume "env_keeps Suspend_counts env"
    then have "keeps Suspend_counts ?s1 s1" unfolding eq by (rule keeps_collab)
    then have "suspend (thr s1 ?t) = suspend (thr ?s1 ?t)" by (simp add: keeps_def)
    then show "suspend (thr s1 t) = 0" using eq by (simp add: init_thread_structure_def)
  }
qed

lemma keeps_req_new_thread:
  assumes e: "env_keeps k env"
  shows "keeps k s (snd (req_new_thread env req_suspend access s))"
proof -
  let ?p = "process (thr s (current_thread s))"
  obtain x s1 where c: "create_thread env ?p s = (x, s1)" by (cases "create_thread env ?p s")
  have 1: "keeps k s s1" using keeps_create_thread[OF e, of s ?p] c by simp
  show ?thesis
  proof (cases x)
    case None
    with c 1 show ?thesis by (simp add: req_new_thread_def)
  next
    case (Some t)
    let ?s2 = "if req_suspend then upd_thread t (\<lambda>th. th\<lparr>suspend := suspend th + 1\<rparr>) s1 else s1"
    note n = create_thread_new[OF c[unfolded Some]]
    have "k = Suspend_counts \<Longrightarrow> suspend (thr s1 t) = 0" using n(3) e by simp
    then have 2: "keeps k s ?s2"
      using 1 n(1) n(2)[OF e]
      by (auto intro!: keeps_upd_thread_new simp: MAXIMUM_SUSPEND_COUNT_def)
    obtain h s3 where a: "alloc_handle env (process (thr ?s2 (current_thread ?s2))) (Thread_obj t) access ?s2 = (h, s3)"
      by (cases "alloc_handle env (process (thr ?s2 (current_thread ?s2))) (Thread_obj t) access ?s2")
    have "keeps k ?s2 s3"
      using keeps_alloc_handle[OF e, of ?s2 "process (thr ?s2 (current_thread ?s2))" "Thread_obj t" access] a
      by simp
    with 2 have 3: "keeps k s s3" by (rule keeps_trans)
    then have 4: "keeps k s (kill_thread env t True s3)"
      using keeps_kill_thread[OF e] by (blast intro: keeps_trans)
    from c Some a 3 4 show ?thesis
      by (simp add: req_new_thread_def Let_def)
  qed
qed

lemma keeps_suspend_thread: "k \<noteq> Suspend_counts \<Longrightarrow> keeps k s (snd (suspend_thread env t s))"
proof -
  assume k: "k \<noteq> Suspend_counts"
  let ?s1 = "upd_thread t (\<lambda>th. th\<lparr>suspend := suspend th + 1\<rparr>) s"
  have 1: "keeps k s ?s1" using k by (cases k) (simp_all add: keeps_def upd_thread_def)
  then have "keeps k s (stop_thread env t ?s1)"
    using keeps_stop_thread by (blast intro: keeps_trans)
  with 1 show ?thesis by (simp add: suspend_thread_def Let_def keeps_set_error)
qed

lemma keeps_resume_thread: "k \<noteq> Suspend_counts \<Longrightarrow> keeps k s (snd (resume_thread env t s))"
proof -
  assume k: "k \<noteq> Suspend_counts"
  let ?s1 = "upd_thread t (\<lambda>th. th\<lparr>suspend := suspend th - 1\<rparr>) s"
  have 1: "keeps k s ?s1" using k by (cases k) (simp_all add: keeps_def upd_thread_def)
  then have "keeps k s (snd (wake_thread env t ?s1))"
    using keeps_wake_thread by (blast intro: keeps_trans)
  with 1 show ?thesis by (simp add: resume_thread_def Let_def)
qed

text \<open>The suspend count of every allocated thread is between 0 and \<^verbatim>\<open>MAXIMUM_SUSPEND_COUNT\<close>.\<close>

definition suspend_ok :: "'x server \<Rightarrow> bool" where
  "suspend_ok s \<longleftrightarrow>
     (\<forall>t<next_thread s. 0 \<le> suspend (thr s t) \<and> suspend (thr s t) \<le> MAXIMUM_SUSPEND_COUNT)"

lemma suspend_ok_keeps: "suspend_ok s \<Longrightarrow> keeps Suspend_counts s s' \<Longrightarrow> suspend_ok s'"
  unfolding suspend_ok_def keeps_def aspect.case
  by (metis not_le_imp_less)

lemma suspend_ok_upd:
  "suspend_ok s \<Longrightarrow> (t < next_thread s \<longrightarrow> 0 \<le> suspend (f (thr s t)) \<and>
      suspend (f (thr s t)) \<le> MAXIMUM_SUSPEND_COUNT) \<Longrightarrow> suspend_ok (upd_thread t f s)"
  by (simp add: suspend_ok_def upd_thread_def)

lemma suspend_ok_suspend_thread: "suspend_ok s \<Longrightarrow> suspend_ok (snd (suspend_thread env t s))"
proof -
  assume a: "suspend_ok s"
  let ?s1 = "upd_thread t (\<lambda>th. th\<lparr>suspend := suspend th + 1\<rparr>) s"
  show ?thesis
  proof (cases "suspend (thr s t) < MAXIMUM_SUSPEND_COUNT")
    case True
    have 1: "suspend_ok ?s1" using a True by (intro suspend_ok_upd) (auto simp: suspend_ok_def)
    then have "suspend_ok (stop_thread env t ?s1)"
      using keeps_stop_thread by (rule suspend_ok_keeps)
    with 1 True show ?thesis by (simp add: suspend_thread_def Let_def)
  next
    case False
    then show ?thesis
      using suspend_ok_keeps[OF a keeps_set_error] by (simp add: suspend_thread_def Let_def)
  qed
qed

lemma suspend_ok_resume_thread: "suspend_ok s \<Longrightarrow> suspend_ok (snd (resume_thread env t s))"
proof -
  assume a: "suspend_ok s"
  let ?s1 = "upd_thread t (\<lambda>th. th\<lparr>suspend := suspend th - 1\<rparr>) s"
  show ?thesis
  proof (cases "suspend (thr s t) > 0")
    case True
    have 1: "suspend_ok ?s1" using a True by (intro suspend_ok_upd) (auto simp: suspend_ok_def)
    then have "suspend_ok (snd (wake_thread env t ?s1))"
      using keeps_wake_thread by (rule suspend_ok_keeps)
    with 1 True show ?thesis by (simp add: resume_thread_def Let_def)
  next
    case False
    with a show ?thesis by (simp add: resume_thread_def Let_def)
  qed
qed

section \<open>Sequences of operations\<close>

text \<open>
  The operations of this file that other code or a request can start, and a step that stands
  for the passing of time and the change of the thread being served.
\<close>

datatype core_op =
    Op_new_thread bool int
  | Op_suspend_thread nat
  | Op_resume_thread nat
  | Op_kill_thread nat bool
  | Op_create_apc "object option" apc_call_t
  | Op_queue_apc "nat option" "nat option" nat
  | Op_thread_queue_apc "nat option" "object option" apc_call_t
  | Op_thread_cancel_apc nat "object option" apc_type
  | Op_select select_request
  | Op_select_woken select_request "object list" timeout_t
  | Op_wake_thread nat
  | Op_uk_wake_up object int
  | Op_cleanup_thread nat
  | Op_serve nat timeout_t

text \<open>A call that dereferences a null pointer leaves the state as it was.\<close>

fun apply_op :: "'x env \<Rightarrow> core_op \<Rightarrow> 'x server \<Rightarrow> 'x server" where
  "apply_op env (Op_new_thread susp access) s = snd (req_new_thread env susp access s)"
| "apply_op env (Op_suspend_thread t) s = snd (req_suspend_thread env t s)"
| "apply_op env (Op_resume_thread t) s = snd (req_resume_thread env t s)"
| "apply_op env (Op_kill_thread t violent) s = kill_thread env t violent s"
| "apply_op env (Op_create_apc own call_data) s = snd (create_apc env own call_data s)"
| "apply_op env (Op_queue_apc proc thread a) s =
     (case queue_apc env proc thread a s of None \<Rightarrow> s | Some (r, s') \<Rightarrow> s')"
| "apply_op env (Op_thread_queue_apc thread own call_data) s =
     (case thread_queue_apc env thread own call_data s of None \<Rightarrow> s | Some (r, s') \<Rightarrow> s')"
| "apply_op env (Op_thread_cancel_apc t own type) s = thread_cancel_apc env t own type s"
| "apply_op env (Op_select req) s = snd (snd (req_select env req s))"
| "apply_op env (Op_select_woken req objs tmo) s = snd (req_select_woken env req objs tmo s)"
| "apply_op env (Op_wake_thread t) s = snd (wake_thread env t s)"
| "apply_op env (Op_uk_wake_up obj mx) s = uk_wake_up env obj mx s"
| "apply_op env (Op_cleanup_thread t) s = cleanup_thread env t s"
| "apply_op env (Op_serve t now) s = s\<lparr>current_thread := t, current_time := now\<rparr>"

definition run_ops :: "'x env \<Rightarrow> core_op list \<Rightarrow> 'x server \<Rightarrow> 'x server" where
  "run_ops env ops s = fold (apply_op env) ops s"

lemma keeps_req_suspend_thread:
  "k \<noteq> Suspend_counts \<Longrightarrow> keeps k s (snd (req_suspend_thread env t s))"
  using keeps_suspend_thread[of k s env t]
  by (auto simp: req_suspend_thread_def keeps_set_error split: prod.splits)

lemma keeps_req_resume_thread:
  "k \<noteq> Suspend_counts \<Longrightarrow> keeps k s (snd (req_resume_thread env t s))"
  using keeps_resume_thread[of k s env t]
  by (auto simp: req_resume_thread_def split: prod.splits)

lemma keeps_serve: "keeps k s (s\<lparr>current_thread := t, current_time := now\<rparr>)"
  by (cases k) (simp_all add: keeps_def)

lemma keeps_apply_op:
  assumes e: "env_keeps k env"
    and op: "k = Suspend_counts \<longrightarrow> (\<forall>t. op \<noteq> Op_suspend_thread t \<and> op \<noteq> Op_resume_thread t)"
  shows "keeps k s (apply_op env op s)"
proof (cases op)
  case (Op_queue_apc proc thread a)
  then show ?thesis by (auto split: option.splits dest: keeps_queue_apc)
next
  case (Op_thread_queue_apc thread own call_data)
  then show ?thesis by (auto split: option.splits dest: keeps_thread_queue_apc)
next
  case (Op_suspend_thread t)
  with op show ?thesis by (auto intro: keeps_req_suspend_thread)
next
  case (Op_resume_thread t)
  with op show ?thesis by (auto intro: keeps_req_resume_thread)
qed (simp_all add: e keeps_req_new_thread keeps_kill_thread keeps_create_apc
       keeps_thread_cancel_apc keeps_req_select keeps_req_select_woken keeps_wake_thread
       keeps_uk_wake_up keeps_cleanup_thread keeps_serve)

lemma suspend_ok_apply_op:
  assumes e: "env_keeps Suspend_counts env" and ok: "suspend_ok s"
  shows "suspend_ok (apply_op env op s)"
proof (cases "\<exists>t. op = Op_suspend_thread t \<or> op = Op_resume_thread t")
  case False
  then have "keeps Suspend_counts s (apply_op env op s)" by (intro keeps_apply_op e) auto
  with ok show ?thesis by (rule suspend_ok_keeps)
next
  case True
  then obtain t where "op = Op_suspend_thread t \<or> op = Op_resume_thread t" by blast
  then show ?thesis
  proof
    assume o: "op = Op_suspend_thread t"
    show ?thesis
      using suspend_ok_suspend_thread[OF ok, of env t] suspend_ok_keeps[OF ok keeps_set_error]
      by (auto simp: o req_suspend_thread_def split: prod.splits)
  next
    assume o: "op = Op_resume_thread t"
    show ?thesis
      using suspend_ok_resume_thread[OF ok, of env t]
      by (auto simp: o req_resume_thread_def split: prod.splits)
  qed
qed

lemma suspend_ok_run_ops:
  "env_keeps Suspend_counts env \<Longrightarrow> suspend_ok s \<Longrightarrow> suspend_ok (run_ops env ops s)"
  unfolding run_ops_def
  by (induction ops arbitrary: s) (auto intro: suspend_ok_apply_op)

lemma keeps_run_ops:
  "env_keeps k env \<Longrightarrow> k \<noteq> Suspend_counts \<Longrightarrow> keeps k s (run_ops env ops s)"
  unfolding run_ops_def
proof (induction ops arbitrary: s)
  case Nil
  show ?case by simp
next
  case (Cons op ops)
  have "keeps k s (apply_op env op s)" using Cons.prems by (intro keeps_apply_op) auto
  moreover have "keeps k (apply_op env op s) (fold (apply_op env) ops (apply_op env op s))"
    using Cons.prems by (intro Cons.IH)
  ultimately show ?case by (auto intro: keeps_trans)
qed

lemma kill_thread_rest:
  assumes e: "env_keeps k env" and r: "state (thr s t) \<noteq> TERMINATED"
  shows "keeps k (upd_thread t (\<lambda>th. th\<lparr>state := TERMINATED, exit_time := current_time s\<rparr>) s)
           (kill_thread env t violent s)"
  using r e unfolding kill_thread_def Let_def
  by (auto intro!: keeps_chain keeps_trans[OF _ keeps_cleanup_thread] keeps_refl)


section \<open>Reaching the evaluation in select\_on\<close>


text \<open>
  The state in which \<^verbatim>\<open>select_on\<close> calls \<^verbatim>\<open>check_wait\<close>, with the objects it has resolved;
  \<open>None\<close> when it returns before that.
\<close>

definition select_reaches :: "'x env \<Rightarrow> nat \<Rightarrow> obj_handle_t list \<Rightarrow> int \<Rightarrow> timeout_t \<Rightarrow> obj_handle_t \<Rightarrow> 'x server \<Rightarrow> (object list \<times> 'x server) option" where
  "select_reaches env count handles flgs tmo0 signal_obj s =
     (let cur = current_thread s;
          tmo = (if sint tmo0 \<le> 0 then current_time s - tmo0 else tmo0)
      in
      if count > MAXIMUM_WAIT_OBJECTS then None
      else
        (case resolve_handles env (process (thr s cur)) (take count handles) s of
           (objs, s1) \<Rightarrow>
             if length objs < count then None
             else
               (case wait_on env count objs flgs tmo s1 of
                  (False, s2) \<Rightarrow> None
                | (True, s2) \<Rightarrow>
                    if signal_obj \<noteq> 0 then
                      (case signal_object env signal_obj s2 of
                         (False, s3) \<Rightarrow> None
                       | (True, s3) \<Rightarrow> if wait (thr s3 cur) = [] then None else Some (objs, s3))
                    else Some (objs, s2))))"

lemma select_on_reaches:
  "select_reaches env count handles flgs tmo0 sig s = Some (objs, se) \<Longrightarrow>
   select_on env count ck handles flgs tmo0 sig s =
     select_evaluate env (current_thread s) ck
       (if sint tmo0 \<le> 0 then current_time s - tmo0 else tmo0) objs se"
  by (auto simp: select_reaches_def select_on_def Let_def
           split: if_splits prod.splits bool.splits)

text \<open>An object that can be waited on: its \<^verbatim>\<open>add_queue\<close> operation is \<^verbatim>\<open>add_queue\<close>.\<close>

definition waitable :: "'x env \<Rightarrow> object \<Rightarrow> bool" where
  "waitable env obj = (case obj of Other_obj n \<Rightarrow> obj_add_queue env n = None | _ \<Rightarrow> True)"

text \<open>The object a handle resolves to, when it does.\<close>

definition handle_obj :: "'x env \<Rightarrow> nat \<Rightarrow> 'x \<Rightarrow> obj_handle_t \<Rightarrow> object option" where
  "handle_obj env p x h =
     (case lookup_handle env p h SYNCHRONIZE x of Inl e \<Rightarrow> None | Inr obj \<Rightarrow> Some obj)"

lemma resolve_handles_all:
  "\<forall>h\<in>set hs. handle_obj env p (ext s) h \<noteq> None \<Longrightarrow>
   \<exists>g. resolve_handles env p hs s = (map (\<lambda>h. the (handle_obj env p (ext s) h)) hs, s\<lparr>grabs := g\<rparr>)"
proof (induction hs arbitrary: s)
  case Nil
  have "s = s\<lparr>grabs := grabs s\<rparr>" by simp
  then show ?case by (metis resolve_handles.simps(1) list.simps(8))
next
  case (Cons h hs)
  from Cons.prems obtain obj where o: "lookup_handle env p h SYNCHRONIZE (ext s) = Inr obj"
    by (auto simp: handle_obj_def split: sum.splits)
  let ?s1 = "grab_object obj s"
  have g: "get_handle_obj env p h SYNCHRONIZE False s = (Some obj, ?s1)"
    using o by (simp add: get_handle_obj_def)
  have e: "ext ?s1 = ext s" by (simp add: grab_object_def)
  have "\<forall>h\<in>set hs. handle_obj env p (ext ?s1) h \<noteq> None" using Cons.prems e by simp
  from Cons.IH[OF this] obtain g' where
    r: "resolve_handles env p hs ?s1 = (map (\<lambda>h. the (handle_obj env p (ext ?s1) h)) hs, ?s1\<lparr>grabs := g'\<rparr>)"
    by blast
  have "?s1\<lparr>grabs := g'\<rparr> = s\<lparr>grabs := g'\<rparr>" by (simp add: grab_object_def)
  with g r e o show ?case by (auto simp: handle_obj_def)
qed

lemma add_entries_all:
  "\<forall>obj\<in>set objs. waitable env obj \<Longrightarrow>
   \<exists>g q. add_entries env t lvl i objs s = (None, s\<lparr>grabs := g, wait_queue := q\<rparr>)"
proof (induction objs arbitrary: i s)
  case Nil
  have "s = s\<lparr>grabs := grabs s, wait_queue := wait_queue s\<rparr>" by simp
  then show ?case by (metis add_entries.simps(1))
next
  case (Cons obj objs)
  let ?e = "\<lparr>e_thread = t, e_level = lvl, e_index = i\<rparr>"
  have "ops_add_queue env obj ?e s = add_queue obj ?e s"
    using Cons.prems by (auto simp: ops_add_queue_def waitable_def split: object.splits)
  then obtain g1 q1 where a: "ops_add_queue env obj ?e s = (True, s\<lparr>grabs := g1, wait_queue := q1\<rparr>)"
    by (simp add: add_queue_def grab_object_def Let_def)
  from Cons.prems have "\<forall>obj\<in>set objs. waitable env obj" by simp
  from Cons.IH[OF this, of "Suc i" "s\<lparr>grabs := g1, wait_queue := q1\<rparr>"] obtain g q where
    "add_entries env t lvl (Suc i) objs (s\<lparr>grabs := g1, wait_queue := q1\<rparr>) =
       (None, s\<lparr>grabs := g1, wait_queue := q1\<rparr>\<lparr>grabs := g, wait_queue := q\<rparr>)" by blast
  with a show ?case by auto
qed

lemma wait_on_ok:
  assumes "alloc_ok env (ext s)" "\<forall>obj\<in>set objs. waitable env obj" "length objs = count"
  shows "\<exists>g q. wait_on env count objs flgs tmo s =
           (True, (upd_thread (current_thread s)
                     (\<lambda>th. th\<lparr>wait := \<lparr>flags = flgs, cookie = 0, timeout = tmo, user = None,
                                        queues = objs\<rparr> # wait th\<rparr>) s)
                    \<lparr>grabs := g, wait_queue := q\<rparr>)"
proof -
  let ?t = "current_thread s"
  let ?w = "\<lparr>flags = flgs, cookie = 0, timeout = tmo, user = None, queues = objs\<rparr>"
  let ?s1 = "upd_thread ?t (\<lambda>th. th\<lparr>wait := ?w # wait th\<rparr>) s"
  from add_entries_all[OF assms(2), of ?t "length (wait (thr s ?t))" 0 ?s1] obtain g q where
    "add_entries env ?t (length (wait (thr s ?t))) 0 objs ?s1 = (None, ?s1\<lparr>grabs := g, wait_queue := q\<rparr>)"
    by blast
  then show ?thesis using assms(1,3) by (auto simp: wait_on_def Let_def)
qed

lemma select_reaches_plain:
  assumes count: "count \<le> MAXIMUM_WAIT_OBJECTS" "length handles = count"
    and handles: "\<forall>h\<in>set handles.
        \<exists>obj. handle_obj env (process (thr s (current_thread s))) (ext s) h = Some obj \<and> waitable env obj"
    and alloc: "alloc_ok env (ext s)"
    and objs: "objs = map (\<lambda>h. the (handle_obj env (process (thr s (current_thread s))) (ext s) h)) handles"
  shows "\<exists>g q.
           select_reaches env count handles flgs tmo0 0 s =
             Some (objs,
               (upd_thread (current_thread s)
                  (\<lambda>th. th\<lparr>wait := \<lparr>flags = flgs, cookie = 0,
                      timeout = (if sint tmo0 \<le> 0 then current_time s - tmo0 else tmo0),
                      user = None, queues = objs\<rparr> # wait th\<rparr>) s)
                 \<lparr>grabs := g, wait_queue := q\<rparr>)"
proof -
  let ?cur = "current_thread s"
  let ?p = "process (thr s ?cur)"
  let ?tmo = "if sint tmo0 \<le> 0 then current_time s - tmo0 else tmo0"
  have "\<forall>h\<in>set handles. handle_obj env ?p (ext s) h \<noteq> None" using handles by auto
  from resolve_handles_all[OF this] obtain g1 where
    r: "resolve_handles env ?p handles s = (objs, s\<lparr>grabs := g1\<rparr>)" unfolding objs by blast
  let ?s1 = "s\<lparr>grabs := g1\<rparr>"
  have w: "\<forall>obj\<in>set objs. waitable env obj" using handles unfolding objs by auto
  have a1: "alloc_ok env (ext ?s1)" using alloc by simp
  have len: "length objs = count" using count unfolding objs by simp
  from wait_on_ok[OF a1 w len, of flgs ?tmo] obtain g q where
    wo: "wait_on env count objs flgs ?tmo ?s1 =
           (True, (upd_thread (current_thread ?s1)
                     (\<lambda>th. th\<lparr>wait := \<lparr>flags = flgs, cookie = 0, timeout = ?tmo, user = None,
                                        queues = objs\<rparr> # wait th\<rparr>) ?s1)
                    \<lparr>grabs := g, wait_queue := q\<rparr>)" by blast
  have eq: "(upd_thread (current_thread ?s1)
                     (\<lambda>th. th\<lparr>wait := \<lparr>flags = flgs, cookie = 0, timeout = ?tmo, user = None,
                                        queues = objs\<rparr> # wait th\<rparr>) ?s1)
                    \<lparr>grabs := g, wait_queue := q\<rparr> =
            (upd_thread ?cur
                     (\<lambda>th. th\<lparr>wait := \<lparr>flags = flgs, cookie = 0, timeout = ?tmo, user = None,
                                        queues = objs\<rparr> # wait th\<rparr>) s)
                    \<lparr>grabs := g, wait_queue := q\<rparr>"
    by (simp add: upd_thread_def)
  have "select_reaches env count handles flgs tmo0 0 s =
          Some (objs, (upd_thread ?cur
                     (\<lambda>th. th\<lparr>wait := \<lparr>flags = flgs, cookie = 0, timeout = ?tmo, user = None,
                                        queues = objs\<rparr> # wait th\<rparr>) s)
                    \<lparr>grabs := g, wait_queue := q\<rparr>)"
    using count r wo len unfolding eq[symmetric]
    by (simp add: select_reaches_def Let_def)
  then show ?thesis by blast
qed

lemma check_wait_times_out:
  assumes frame: "wait (thr s t) = w # ws"
    and deadline: "sint (timeout w) \<le> sint (current_time s)"
    and unsignaled: "\<forall>obj\<in>set (queues w). \<not> ops_signaled env obj t s"
    and nonempty: "flags w AND SELECT_ALL = 0 \<or> queues w \<noteq> []"
    and no_sys: "flags w AND SELECT_INTERRUPTIBLE = 0 \<or> system_apc (thr s t) = []"
    and no_user: "flags w AND SELECT_ALERTABLE = 0 \<or> user_apc (thr s t) = []"
    and not_susp: "\<not> is_suspended s t"
  shows "check_wait env t s = Some (STATUS_TIMEOUT, s)"
proof -
  have oc: "other_checks t w s = STATUS_TIMEOUT"
    using deadline no_user by (auto simp: other_checks_def)
  show ?thesis
  proof (cases "flags w AND SELECT_ALL \<noteq> 0")
    case True
    with nonempty obtain obj where "obj \<in> set (queues w)" by (cases "queues w") auto
    with unsignaled have "all_not_ok env t (queues w) False s" by (auto simp: all_not_ok_eq)
    with True frame no_sys not_susp oc show ?thesis by (auto simp: check_wait_def)
  next
    case False
    have "scan_any env t 0 (queues w) s = None" using unsignaled by (simp add: scan_any_None)
    with False frame no_sys not_susp oc show ?thesis by (auto simp: check_wait_def)
  qed
qed

lemma release_objects_fields [simp]:
  "thr (release_objects objs s) = thr s" "error (release_objects objs s) = error s"
  "timers (release_objects objs s) = timers s" "next_timer (release_objects objs s) = next_timer s"
  "satisfied_calls (release_objects objs s) = satisfied_calls s"
  "ext (release_objects objs s) = ext s" "apcs (release_objects objs s) = apcs s"
proof -
  have "\<exists>g. fold release_object l s = s\<lparr>grabs := g\<rparr>" for l
  proof (induction l arbitrary: s)
    case Nil
    have "s = s\<lparr>grabs := grabs s\<rparr>" by simp
    then show ?case by (metis fold_simps(1))
  next
    case (Cons obj l)
    from Cons[of "release_object obj s"] obtain g where
      h: "fold release_object l (release_object obj s) = (release_object obj s)\<lparr>grabs := g\<rparr>" by blast
    have "(release_object obj s)\<lparr>grabs := g\<rparr> = s\<lparr>grabs := g\<rparr>"
      by (simp add: release_object_def)
    with h show ?case by auto
  qed
  then obtain g where "release_objects objs s = s\<lparr>grabs := g\<rparr>"
    unfolding release_objects_def by blast
  then show "thr (release_objects objs s) = thr s" "error (release_objects objs s) = error s"
    "timers (release_objects objs s) = timers s" "next_timer (release_objects objs s) = next_timer s"
    "satisfied_calls (release_objects objs s) = satisfied_calls s"
    "ext (release_objects objs s) = ext s" "apcs (release_objects objs s) = apcs s"
    by simp_all
qed

lemma remove_entries_fields [simp]:
  "timers (remove_entries t lvl i objs s) = timers s"
  "next_timer (remove_entries t lvl i objs s) = next_timer s"
  "satisfied_calls (remove_entries t lvl i objs s) = satisfied_calls s"
  "error (remove_entries t lvl i objs s) = error s"
  by (induction objs arbitrary: i s; simp add: remove_queue_def release_object_def)+

section \<open>Cancelling and posting an APC\<close>











section \<open>A small server for the examples\<close>

text \<open>
  The other objects of the examples are numbered; the external state gives each a value:
  0 for an object that is not signaled, 1 for a set auto-reset event, 2 for a mutex whose
  owner died. Acquiring an object resets it to 0 and reports the abandoned mutex.
\<close>

definition demo_env :: "(nat \<Rightarrow> nat) env" where
  "demo_env =
     \<lparr>obj_signaled = (\<lambda>n t x. x n \<noteq> 0),
      obj_satisfied = (\<lambda>n t x. (x n = 2, x(n := 0))),
      obj_add_queue = (\<lambda>n. None),
      obj_signal = (\<lambda>n access s. (True, s\<lparr>ext := (ext s)(n := 1)\<rparr>)),
      lookup_handle = (\<lambda>p h access x. if h = 0 then Inl STATUS_INVALID_HANDLE else Inr (Other_obj h)),
      get_handle_access = (\<lambda>p h x. 0),
      signal_accepted = (\<lambda>t sig x. True),
      alloc_ok = (\<lambda>x. True),
      alloc_handle = (\<lambda>p obj access s. (1, s)),
      collab = (\<lambda>c t s. s)\<rparr>"

definition demo_apc :: thread_apc where
  "demo_apc = \<lparr>caller = None, owner = None, executed = False,
               call = \<lparr>call_type = APC_USER, call_args = 0\<rparr>,
               result = \<lparr>result_type = APC_NONE, result_data = 0\<rparr>\<rparr>"

text \<open>One process with one running thread, thread 0; object 2 is an abandoned mutex and
  object 3 a set event.\<close>

definition demo_server :: "(nat \<Rightarrow> nat) server" where
  "demo_server =
     \<lparr>thr = (\<lambda>t. init_thread_structure 0 0),
      procs = (\<lambda>p. \<lparr>proc_suspend = 0, thread_list = [0], startup_done = True,
                     is_terminating = False\<rparr>),
      apcs = (\<lambda>a. demo_apc),
      next_apc = 0,
      next_thread = 1,
      wait_queue = (\<lambda>obj. []),
      grabs = (\<lambda>obj. 0),
      timers = [],
      next_timer = 0,
      current_time = 1000,
      current_thread = 0,
      error = 0,
      signals = [],
      satisfied_calls = [],
      ext = (\<lambda>n. if n = 2 then 2 else if n = 3 then 1 else 0)\<rparr>"

definition demo_wait :: "int \<Rightarrow> object list \<Rightarrow> thread_wait" where
  "demo_wait flgs objs =
     \<lparr>flags = flgs, cookie = 7, timeout = TIMEOUT_INFINITE, user = None, queues = objs\<rparr>"

text \<open>The server with thread 0 blocked in one frame.\<close>

definition demo_waiting :: "int \<Rightarrow> object list \<Rightarrow> (nat \<Rightarrow> nat) server" where
  "demo_waiting flgs objs = upd_thread 0 (\<lambda>th. th\<lparr>wait := [demo_wait flgs objs]\<rparr>) demo_server"

lemmas demo_defs = demo_env_def demo_server_def demo_wait_def demo_waiting_def demo_apc_def
  init_thread_structure_def upd_thread_def ops_signaled_def ops_satisfied_def is_suspended_def

lemma demo_env_keeps: "env_keeps k demo_env"
  by (cases k) (simp_all add: env_keeps_def keeps_def demo_env_def)

text \<open>A server whose APC 0, owned by object 9, has been executed.\<close>

definition demo_executed :: "(nat \<Rightarrow> nat) server" where
  "demo_executed =
     (upd_apc 0 (\<lambda>apc. apc\<lparr>owner := Some (Other_obj 9), executed := True\<rparr>) demo_server)
       \<lparr>next_apc := 1\<rparr>"




section \<open>The claims\<close>


subsection \<open>C1: a wait for any object\<close>

text \<open>
  Claim C1. Take a frame without \<^verbatim>\<open>SELECT_ALL\<close> on top of a thread that is neither
  interruptible with a pending system APC nor suspended, and let \<open>i\<close> be the first index, in
  handle order, whose object reports signaled. Then \<^verbatim>\<open>check_wait\<close> returns \<open>i\<close>, or
  \<open>i + STATUS_ABANDONED_WAIT_0\<close> when \<^verbatim>\<open>satisfied\<close> returned true; the state it returns is
  the one that single \<^verbatim>\<open>satisfied\<close> call leaves, and the log of \<^verbatim>\<open>satisfied\<close> calls grows
  by exactly that object. The index is determined by the handle order and the answers of
  \<^verbatim>\<open>signaled\<close>: any other evaluation (other state, thread or environment) of a frame with
  the same objects and the same answers reports the same index.
\<close>

theorem check_wait_first_signaled_wins:
  assumes frame: "wait (thr s t) = w # ws"
    and not_all: "flags w AND SELECT_ALL = 0"
    and no_apc: "flags w AND SELECT_INTERRUPTIBLE = 0 \<or> system_apc (thr s t) = []"
    and not_susp: "\<not> is_suspended s t"
    and i: "i < length (queues w)"
    and sig: "ops_signaled env (queues w ! i) t s"
    and first: "\<forall>j<i. \<not> ops_signaled env (queues w ! j) t s"
  shows "check_wait env t s =
           Some (if fst (ops_satisfied env (queues w ! i) t s)
                 then int i + STATUS_ABANDONED_WAIT_0 else int i,
                 snd (ops_satisfied env (queues w ! i) t s))
       \<and> satisfied_calls (snd (ops_satisfied env (queues w ! i) t s)) =
           satisfied_calls s @ [(queues w ! i, t)]
       \<and> (\<forall>env' s' t' w' ws'.
            wait (thr s' t') = w' # ws' \<and> queues w' = queues w \<and> flags w' AND SELECT_ALL = 0 \<and>
            (flags w' AND SELECT_INTERRUPTIBLE = 0 \<or> system_apc (thr s' t') = []) \<and>
            \<not> is_suspended s' t' \<and>
            (\<forall>k<length (queues w).
               ops_signaled env' (queues w ! k) t' s' = ops_signaled env (queues w ! k) t s)
            \<longrightarrow> (\<exists>r. check_wait env' t' s' = Some r \<and>
                     (fst r = int i \<or> fst r = int i + STATUS_ABANDONED_WAIT_0)))"
proof (intro conjI allI impI)
  show "check_wait env t s =
           Some (if fst (ops_satisfied env (queues w ! i) t s)
                 then int i + STATUS_ABANDONED_WAIT_0 else int i,
                 snd (ops_satisfied env (queues w ! i) t s))"
    using frame not_all no_apc not_susp scan_any_first[OF i sig first, of 0]
    by (auto simp: check_wait_def)
next
  show "satisfied_calls (snd (ops_satisfied env (queues w ! i) t s)) =
           satisfied_calls s @ [(queues w ! i, t)]"
    by (rule ops_satisfied_calls)
next
  fix env' :: "'x env" and s' :: "'x server" and t' w' ws'
  assume a: "wait (thr s' t') = w' # ws' \<and> queues w' = queues w \<and> flags w' AND SELECT_ALL = 0 \<and>
            (flags w' AND SELECT_INTERRUPTIBLE = 0 \<or> system_apc (thr s' t') = []) \<and>
            \<not> is_suspended s' t' \<and>
            (\<forall>k<length (queues w).
               ops_signaled env' (queues w ! k) t' s' = ops_signaled env (queues w ! k) t s)"
  have i': "i < length (queues w')" using a i by simp
  have sig': "ops_signaled env' (queues w' ! i) t' s'" using a i sig by simp
  have first': "\<forall>j<i. \<not> ops_signaled env' (queues w' ! j) t' s'" using a i first by simp
  show "\<exists>r. check_wait env' t' s' = Some r \<and>
                     (fst r = int i \<or> fst r = int i + STATUS_ABANDONED_WAIT_0)"
    using a scan_any_first[OF i' sig' first', of 0]
    by (auto simp: check_wait_def)
qed

theorem check_wait_first_signaled_wins_witness:
  "map_option fst (check_wait demo_env 0 (demo_waiting 0 [Other_obj 5, Other_obj 2, Other_obj 3]))
     = Some (1 + STATUS_ABANDONED_WAIT_0)
   \<and> map_option (\<lambda>r. satisfied_calls (snd r))
        (check_wait demo_env 0 (demo_waiting 0 [Other_obj 5, Other_obj 2, Other_obj 3]))
     = Some [(Other_obj 2, 0)]"
proof -
  let ?s = "demo_waiting 0 [Other_obj 5, Other_obj 2, Other_obj 3]"
  let ?w = "demo_wait 0 [Other_obj 5, Other_obj 2, Other_obj 3]"
  have frame: "wait (thr ?s 0) = ?w # []" by (simp add: demo_defs)
  have not_all: "flags ?w AND SELECT_ALL = 0" by (simp add: demo_defs)
  have no_apc: "flags ?w AND SELECT_INTERRUPTIBLE = 0 \<or> system_apc (thr ?s 0) = []"
    by (simp add: demo_defs)
  have not_susp: "\<not> is_suspended ?s 0" by (simp add: demo_defs)
  have i: "1 < length (queues ?w)" by (simp add: demo_defs)
  have sig: "ops_signaled demo_env (queues ?w ! 1) 0 ?s" by (simp add: demo_defs)
  have first: "\<forall>j<1. \<not> ops_signaled demo_env (queues ?w ! j) 0 ?s" by (simp add: demo_defs)
  have sat: "fst (ops_satisfied demo_env (queues ?w ! 1) 0 ?s)"
    by (simp add: demo_defs Let_def)
  have calls: "satisfied_calls ?s = []" by (simp add: demo_defs)
  have obj: "queues ?w ! 1 = Other_obj 2" by (simp add: demo_defs)
  note r = check_wait_first_signaled_wins[OF frame not_all no_apc not_susp i sig first]
  show ?thesis
    using sat calls obj by (simp add: r[THEN conjunct1] ops_satisfied_calls)
qed


subsection \<open>C2: a wait for all objects\<close>

text \<open>
  Claim C2. For a frame with \<^verbatim>\<open>SELECT_ALL\<close>: if \<^verbatim>\<open>check_wait\<close> reports the wait satisfied
  (status 0 or \<^verbatim>\<open>STATUS_ABANDONED_WAIT_0\<close>) then every object of the frame reported
  signaled, \<^verbatim>\<open>satisfied\<close> has been called on every object of the frame, in order, and the
  status is \<^verbatim>\<open>STATUS_ABANDONED_WAIT_0\<close> exactly when one of these calls returned true.
  When the thread is neither interrupted by a system APC nor suspended and every object
  reports signaled, the wait is satisfied in this way. In every other outcome no
  \<^verbatim>\<open>satisfied\<close> call is made: the state is unchanged and the status is \<^verbatim>\<open>STATUS_USER_APC\<close>,
  \<^verbatim>\<open>STATUS_TIMEOUT\<close> or pending (-1).
\<close>

theorem check_wait_all_satisfied:
  assumes frame: "wait (thr s t) = w # ws"
    and all: "flags w AND SELECT_ALL \<noteq> 0"
  shows "(\<forall>r s'. check_wait env t s = Some (r, s') \<and> (r = 0 \<or> r = STATUS_ABANDONED_WAIT_0) \<longrightarrow>
            (\<forall>obj\<in>set (queues w). ops_signaled env obj t s) \<and>
            s' = satisfied_state env t (queues w) s \<and>
            satisfied_calls s' = satisfied_calls s @ map (\<lambda>obj. (obj, t)) (queues w) \<and>
            r = (if True \<in> set (satisfied_results env t (queues w) s)
                 then STATUS_ABANDONED_WAIT_0 else 0))
       \<and> ((flags w AND SELECT_INTERRUPTIBLE = 0 \<or> system_apc (thr s t) = []) \<and>
          \<not> is_suspended s t \<and> (\<forall>obj\<in>set (queues w). ops_signaled env obj t s) \<longrightarrow>
            check_wait env t s =
              Some (if True \<in> set (satisfied_results env t (queues w) s)
                    then STATUS_ABANDONED_WAIT_0 else 0,
                    satisfied_state env t (queues w) s))
       \<and> (\<forall>r s'. check_wait env t s = Some (r, s') \<and> r \<noteq> 0 \<and> r \<noteq> STATUS_ABANDONED_WAIT_0 \<longrightarrow>
            s' = s \<and> (r = STATUS_USER_APC \<or> r = STATUS_TIMEOUT \<or> r = - 1))"
proof -
  have codes: "STATUS_USER_APC \<noteq> 0" "STATUS_USER_APC \<noteq> STATUS_ABANDONED_WAIT_0"
    "STATUS_TIMEOUT \<noteq> 0" "STATUS_TIMEOUT \<noteq> STATUS_ABANDONED_WAIT_0"
    "STATUS_ABANDONED_WAIT_0 \<noteq> 0" "STATUS_ABANDONED_WAIT_0 \<noteq> - 1"
    by (simp_all add: STATUS_USER_APC_def STATUS_TIMEOUT_def STATUS_ABANDONED_WAIT_0_def)
  have oc: "other_checks t w s \<noteq> 0" "other_checks t w s \<noteq> STATUS_ABANDONED_WAIT_0"
    using other_checks_cases[of t w s] codes by auto
  have p1: "\<forall>r s'. check_wait env t s = Some (r, s') \<and> (r = 0 \<or> r = STATUS_ABANDONED_WAIT_0) \<longrightarrow>
            (\<forall>obj\<in>set (queues w). ops_signaled env obj t s) \<and>
            s' = satisfied_state env t (queues w) s \<and>
            satisfied_calls s' = satisfied_calls s @ map (\<lambda>obj. (obj, t)) (queues w) \<and>
            r = (if True \<in> set (satisfied_results env t (queues w) s)
                 then STATUS_ABANDONED_WAIT_0 else 0)"
    using frame all codes oc
    by (auto simp: check_wait_def all_not_ok_eq tell_all_eq satisfied_state_calls
             split: if_splits)
  have p2: "(flags w AND SELECT_INTERRUPTIBLE = 0 \<or> system_apc (thr s t) = []) \<and>
          \<not> is_suspended s t \<and> (\<forall>obj\<in>set (queues w). ops_signaled env obj t s) \<longrightarrow>
            check_wait env t s =
              Some (if True \<in> set (satisfied_results env t (queues w) s)
                    then STATUS_ABANDONED_WAIT_0 else 0,
                    satisfied_state env t (queues w) s)"
    using frame all by (auto simp: check_wait_def all_not_ok_eq tell_all_eq)
  have p3: "\<forall>r s'. check_wait env t s = Some (r, s') \<and> r \<noteq> 0 \<and> r \<noteq> STATUS_ABANDONED_WAIT_0 \<longrightarrow>
            s' = s \<and> (r = STATUS_USER_APC \<or> r = STATUS_TIMEOUT \<or> r = - 1)"
    using frame all other_checks_cases[of t w s]
    by (auto simp: check_wait_def all_not_ok_eq tell_all_eq split: if_splits)
  from p1 p2 p3 show ?thesis by blast
qed

theorem check_wait_all_satisfied_witness:
  "map_option fst (check_wait demo_env 0 (demo_waiting SELECT_ALL [Other_obj 2, Other_obj 3]))
     = Some STATUS_ABANDONED_WAIT_0
   \<and> map_option (\<lambda>r. satisfied_calls (snd r))
        (check_wait demo_env 0 (demo_waiting SELECT_ALL [Other_obj 2, Other_obj 3]))
     = Some [(Other_obj 2, 0), (Other_obj 3, 0)]"
proof -
  let ?s = "demo_waiting SELECT_ALL [Other_obj 2, Other_obj 3]"
  let ?w = "demo_wait SELECT_ALL [Other_obj 2, Other_obj 3]"
  have frame: "wait (thr ?s 0) = ?w # []" by (simp add: demo_defs)
  have all: "flags ?w AND SELECT_ALL \<noteq> 0" by (simp add: demo_defs SELECT_ALL_def)
  have pre: "(flags ?w AND SELECT_INTERRUPTIBLE = 0 \<or> system_apc (thr ?s 0) = []) \<and>
          \<not> is_suspended ?s 0 \<and> (\<forall>obj\<in>set (queues ?w). ops_signaled demo_env obj 0 ?s)"
    by (simp add: demo_defs)
  have res: "True \<in> set (satisfied_results demo_env 0 (queues ?w) ?s)"
    by (simp add: demo_defs Let_def)
  have calls: "satisfied_calls ?s = []" and q: "queues ?w = [Other_obj 2, Other_obj 3]"
    by (simp_all add: demo_defs)
  note r = check_wait_all_satisfied[OF frame all, of demo_env,
             THEN conjunct2, THEN conjunct1, THEN mp, OF pre]
  have sc: "satisfied_calls (satisfied_state demo_env 0 (queues ?w) ?s) =
      [(Other_obj 2, 0), (Other_obj 3, 0)]"
    by (subst satisfied_state_calls) (simp add: calls q)
  show ?thesis using res sc by (simp add: r)
qed

subsection \<open>C3: the thread chosen for a process-wide APC\<close>


subsection \<open>C4: posting an APC cancels the previous one of its owner\<close>




subsection \<open>C5: a deadline that has been reached\<close>

text \<open>
  Claim C5, as stated, fails for a frame without objects and with \<^verbatim>\<open>SELECT_ALL\<close>: no
  object is signaled, no APC is deliverable, the thread is not suspended and the deadline is
  the current time, yet \<^verbatim>\<open>check_wait\<close> finds the (empty) set of objects all signaled and
  the call returns status 0, not \<^verbatim>\<open>STATUS_TIMEOUT\<close>.
\<close>

theorem select_on_deadline_now_counterexample:
  "\<not> is_suspended demo_server 0
   \<and> system_apc (thr demo_server 0) = [] \<and> user_apc (thr demo_server 0) = []
   \<and> fst (select_on demo_env 0 7 [] SELECT_ALL 0 0 demo_server) = current_time demo_server
   \<and> fst (snd (select_on demo_env 0 7 [] SELECT_ALL 0 0 demo_server)) = Replied
   \<and> error (snd (snd (select_on demo_env 0 7 [] SELECT_ALL 0 0 demo_server))) = 0
   \<and> error (snd (snd (select_on demo_env 0 7 [] SELECT_ALL 0 0 demo_server))) \<noteq> STATUS_TIMEOUT"
  by (simp add: select_on_def select_evaluate_def wait_on_def check_wait_def end_wait_def
        release_objects_def set_error_def Let_def demo_defs SELECT_ALL_def SELECT_INTERRUPTIBLE_def
        MAXIMUM_WAIT_OBJECTS_def STATUS_TIMEOUT_def)

text \<open>
  Claim C5, amended. Let a select call get as far as evaluating its wait (the count is
  within the limit, the handles resolve, the frame is built and the optional signal step
  succeeded and left the thread waiting), and let \<open>se\<close> be the state at that point. If the
  deadline of the frame on top equals the current time, none of its objects is signaled, the
  frame has an object or lacks \<^verbatim>\<open>SELECT_ALL\<close>, no APC is deliverable and the thread is not
  suspended, then \<^verbatim>\<open>select_on\<close> returns to the handler with \<^verbatim>\<open>STATUS_TIMEOUT\<close>: the frame
  has been unwound, the calling thread is not parked and its completion is untouched, no
  timer has been installed and no \<^verbatim>\<open>satisfied\<close> call has been made.
\<close>

theorem select_on_deadline_now:
  assumes reach: "select_reaches env count handles flgs tmo0 sig s = Some (objs, se)"
    and frame: "wait (thr se (current_thread s)) = w # ws"
    and deadline: "timeout w = current_time se"
    and unsignaled: "\<forall>obj\<in>set (queues w). \<not> ops_signaled env obj (current_thread s) se"
    and nonempty: "flags w AND SELECT_ALL = 0 \<or> queues w \<noteq> []"
    and no_sys: "flags w AND SELECT_INTERRUPTIBLE = 0 \<or> system_apc (thr se (current_thread s)) = []"
    and no_user: "flags w AND SELECT_ALERTABLE = 0 \<or> user_apc (thr se (current_thread s)) = []"
    and not_susp: "\<not> is_suspended se (current_thread s)"
  shows "\<exists>s'. select_on env count ck handles flgs tmo0 sig s =
                 (if sint tmo0 \<le> 0 then current_time s - tmo0 else tmo0, Replied, s')
            \<and> error s' = STATUS_TIMEOUT
            \<and> wait (thr s' (current_thread s)) = ws
            \<and> completion (thr s' (current_thread s)) = completion (thr se (current_thread s))
            \<and> set (timers s') \<subseteq> set (timers se) \<and> next_timer s' = next_timer se
            \<and> satisfied_calls s' = satisfied_calls se"
proof -
  let ?cur = "current_thread s"
  let ?tmo = "if sint tmo0 \<le> 0 then current_time s - tmo0 else tmo0"
  have cw: "check_wait env ?cur se = Some (STATUS_TIMEOUT, se)"
    using frame deadline unsignaled nonempty no_sys no_user not_susp
    by (intro check_wait_times_out) simp_all
  let ?s1 = "upd_thread ?cur (\<lambda>th. th\<lparr>wait := ws\<rparr>) se"
  let ?s2 = "remove_entries ?cur (length ws) 0 (queues w) ?s1"
  let ?s3 = "case user w of None \<Rightarrow> ?s2 | Some u \<Rightarrow> remove_timeout_user u ?s2"
  have ew: "end_wait ?cur se = Some ?s3" using frame by (simp add: end_wait_def Let_def)
  let ?s' = "release_objects objs (set_error STATUS_TIMEOUT ?s3)"
  have ne: "STATUS_TIMEOUT \<noteq> - 1" by (simp add: STATUS_TIMEOUT_def)
  have so: "select_on env count ck handles flgs tmo0 sig s = (?tmo, Replied, ?s')"
    using select_on_reaches[OF reach, of ck] cw ew ne by (simp add: select_evaluate_def)
  have f: "error ?s' = STATUS_TIMEOUT" "wait (thr ?s' ?cur) = ws"
    "completion (thr ?s' ?cur) = completion (thr se ?cur)"
    "set (timers ?s') \<subseteq> set (timers se)" "next_timer ?s' = next_timer se"
    "satisfied_calls ?s' = satisfied_calls se"
    by (auto simp: set_error_def upd_thread_def remove_timeout_user_def split: option.splits)
  from so f show ?thesis by blast
qed

theorem select_on_deadline_now_witness:
  "fst (snd (select_on demo_env 1 7 [5] 0 0 0 demo_server)) = Replied
   \<and> error (snd (snd (select_on demo_env 1 7 [5] 0 0 0 demo_server))) = STATUS_TIMEOUT
   \<and> wait (thr (snd (snd (select_on demo_env 1 7 [5] 0 0 0 demo_server))) 0) = []
   \<and> timers (snd (snd (select_on demo_env 1 7 [5] 0 0 0 demo_server))) = []"
proof -
  let ?w = "\<lparr>flags = 0, cookie = 0, timeout = current_time demo_server - 0, user = None,
             queues = [Other_obj 5]\<rparr>"
  have cur: "current_thread demo_server = 0" by (simp add: demo_server_def)
  have o: "[Other_obj 5] = map (\<lambda>h. the (handle_obj demo_env
             (process (thr demo_server (current_thread demo_server))) (ext demo_server) h)) [5]"
    by (simp add: handle_obj_def demo_env_def)
  have "\<exists>g q. select_reaches demo_env 1 [5] 0 0 0 demo_server =
          Some ([Other_obj 5],
            (upd_thread (current_thread demo_server)
               (\<lambda>th. th\<lparr>wait := \<lparr>flags = 0, cookie = 0,
                   timeout = (if sint (0::64 word) \<le> 0 then current_time demo_server - 0 else 0),
                   user = None, queues = [Other_obj 5]\<rparr> # wait th\<rparr>) demo_server)
              \<lparr>grabs := g, wait_queue := q\<rparr>)"
    by (rule select_reaches_plain[OF _ _ _ _ o])
       (simp_all add: MAXIMUM_WAIT_OBJECTS_def handle_obj_def waitable_def demo_env_def)
  then obtain g q where reach: "select_reaches demo_env 1 [5] 0 0 0 demo_server =
      Some ([Other_obj 5],
            (upd_thread 0 (\<lambda>th. th\<lparr>wait := ?w # wait th\<rparr>) demo_server)
              \<lparr>grabs := g, wait_queue := q\<rparr>)"
    by (auto simp: cur)
  let ?se = "(upd_thread 0 (\<lambda>th. th\<lparr>wait := ?w # wait th\<rparr>) demo_server)\<lparr>grabs := g, wait_queue := q\<rparr>"
  have frame: "wait (thr ?se (current_thread demo_server)) = ?w # []"
    by (simp add: demo_defs)
  have deadline: "timeout ?w = current_time ?se" by (simp add: demo_defs)
  have unsignaled: "\<forall>obj\<in>set (queues ?w). \<not> ops_signaled demo_env obj (current_thread demo_server) ?se"
    by (simp add: demo_defs)
  have nonempty: "flags ?w AND SELECT_ALL = 0 \<or> queues ?w \<noteq> []" by simp
  have no_sys: "flags ?w AND SELECT_INTERRUPTIBLE = 0 \<or>
                system_apc (thr ?se (current_thread demo_server)) = []" by simp
  have no_user: "flags ?w AND SELECT_ALERTABLE = 0 \<or>
                 user_apc (thr ?se (current_thread demo_server)) = []" by simp
  have not_susp: "\<not> is_suspended ?se (current_thread demo_server)" by (simp add: demo_defs)
  have tm: "timers ?se = []" by (simp add: demo_defs)
  from select_on_deadline_now[OF reach frame deadline unsignaled nonempty no_sys no_user not_susp,
         of 7]
  obtain s' where "select_on demo_env 1 7 [5] 0 0 0 demo_server =
       (if sint (0::64 word) \<le> 0 then current_time demo_server - 0 else 0, Replied, s')"
    "error s' = STATUS_TIMEOUT" "wait (thr s' (current_thread demo_server)) = []"
    "set (timers s') \<subseteq> set (timers ?se)" by blast
  then show ?thesis using tm cur by simp
qed


subsection \<open>C6: the limit on the number of handles\<close>

text \<open>
  Claim C6. With more than \<^verbatim>\<open>MAXIMUM_WAIT_OBJECTS\<close> (64) handles \<^verbatim>\<open>select_on\<close> returns 0
  with \<^verbatim>\<open>STATUS_INVALID_PARAMETER\<close> and the state is otherwise untouched: no handle has been
  resolved, no reference taken, no frame built. With exactly 64 handles that resolve to
  waitable objects (and memory for the frame) the call passes the check: it resolves the 64
  handles, pushes a frame of 64 entries on the calling thread and goes on to evaluate it.
\<close>

theorem select_on_count_limit:
  "(MAXIMUM_WAIT_OBJECTS < count \<longrightarrow>
      select_on env count ck handles flgs tmo0 sig s =
        (0, Replied, s\<lparr>error := STATUS_INVALID_PARAMETER\<rparr>))
   \<and> (count = MAXIMUM_WAIT_OBJECTS \<and> length handles = count \<and>
      (\<forall>h\<in>set handles. \<exists>obj.
          handle_obj env (process (thr s (current_thread s))) (ext s) h = Some obj \<and>
          waitable env obj) \<and>
      alloc_ok env (ext s) \<longrightarrow>
        (\<exists>objs se w.
            select_on env count ck handles flgs tmo0 0 s =
              select_evaluate env (current_thread s) ck
                (if sint tmo0 \<le> 0 then current_time s - tmo0 else tmo0) objs se \<and>
            length objs = 64 \<and>
            objs = map (\<lambda>h. the (handle_obj env (process (thr s (current_thread s))) (ext s) h))
                       handles \<and>
            wait (thr se (current_thread s)) = w # wait (thr s (current_thread s)) \<and>
            queues w = objs \<and> flags w = flgs))"
proof (intro conjI impI)
  assume "MAXIMUM_WAIT_OBJECTS < count"
  then show "select_on env count ck handles flgs tmo0 sig s =
        (0, Replied, s\<lparr>error := STATUS_INVALID_PARAMETER\<rparr>)"
    by (simp add: select_on_def Let_def set_error_def)
next
  let ?cur = "current_thread s"
  let ?objs = "map (\<lambda>h. the (handle_obj env (process (thr s ?cur)) (ext s) h)) handles"
  let ?tmo = "if sint tmo0 \<le> 0 then current_time s - tmo0 else tmo0"
  let ?w = "\<lparr>flags = flgs, cookie = 0, timeout = ?tmo, user = None, queues = ?objs\<rparr>"
  assume a: "count = MAXIMUM_WAIT_OBJECTS \<and> length handles = count \<and>
      (\<forall>h\<in>set handles. \<exists>obj.
          handle_obj env (process (thr s (current_thread s))) (ext s) h = Some obj \<and>
          waitable env obj) \<and>
      alloc_ok env (ext s)"
  then have c: "count \<le> MAXIMUM_WAIT_OBJECTS" "length handles = count" by simp_all
  from select_reaches_plain[OF c _ _ refl, of env s flgs tmo0] a obtain g q where
    reach: "select_reaches env count handles flgs tmo0 0 s =
              Some (?objs, (upd_thread ?cur (\<lambda>th. th\<lparr>wait := ?w # wait th\<rparr>) s)
                             \<lparr>grabs := g, wait_queue := q\<rparr>)"
    by blast
  let ?se = "(upd_thread ?cur (\<lambda>th. th\<lparr>wait := ?w # wait th\<rparr>) s)\<lparr>grabs := g, wait_queue := q\<rparr>"
  have "select_on env count ck handles flgs tmo0 0 s = select_evaluate env ?cur ck ?tmo ?objs ?se"
    using reach by (rule select_on_reaches)
  moreover have "length ?objs = 64" using a by (simp add: MAXIMUM_WAIT_OBJECTS_def)
  moreover have "wait (thr ?se ?cur) = ?w # wait (thr s ?cur)" by (simp add: upd_thread_def)
  ultimately show "\<exists>objs se w.
            select_on env count ck handles flgs tmo0 0 s =
              select_evaluate env (current_thread s) ck
                (if sint tmo0 \<le> 0 then current_time s - tmo0 else tmo0) objs se \<and>
            length objs = 64 \<and>
            objs = map (\<lambda>h. the (handle_obj env (process (thr s (current_thread s))) (ext s) h))
                       handles \<and>
            wait (thr se (current_thread s)) = w # wait (thr s (current_thread s)) \<and>
            queues w = objs \<and> flags w = flgs"
    by (intro exI[of _ ?objs] exI[of _ ?se] exI[of _ ?w]) simp
qed

theorem select_on_count_limit_witness:
  "select_on demo_env 65 7 (replicate 65 5) 0 0 0 demo_server =
     (0, Replied, demo_server\<lparr>error := STATUS_INVALID_PARAMETER\<rparr>)
   \<and> (\<exists>se w. select_on demo_env 64 7 (replicate 64 5) 0 0 0 demo_server =
               select_evaluate demo_env 0 7 1000 (replicate 64 (Other_obj 5)) se \<and>
             wait (thr se 0) = [w] \<and> queues w = replicate 64 (Other_obj 5))"
proof -
  have a: "MAXIMUM_WAIT_OBJECTS < 65" by (simp add: MAXIMUM_WAIT_OBJECTS_def)
  have b: "64 = MAXIMUM_WAIT_OBJECTS \<and> length (replicate 64 (5::nat)) = 64 \<and>
      (\<forall>h\<in>set (replicate 64 (5::nat)). \<exists>obj.
          handle_obj demo_env (process (thr demo_server (current_thread demo_server)))
            (ext demo_server) h = Some obj \<and> waitable demo_env obj) \<and>
      alloc_ok demo_env (ext demo_server)"
    by (simp add: MAXIMUM_WAIT_OBJECTS_def handle_obj_def waitable_def demo_env_def)
  have m: "map (\<lambda>h. the (handle_obj demo_env (process (thr demo_server (current_thread demo_server)))
             (ext demo_server) h)) (replicate 64 (5::nat)) = replicate 64 (Other_obj 5)"
    by (simp add: handle_obj_def demo_env_def)
  have f: "current_thread demo_server = 0" "wait (thr demo_server 0) = []"
    "current_time demo_server - 0 = 1000"
    by (simp_all add: demo_defs)
  note p1 = select_on_count_limit[of 65 demo_env 7 "replicate 65 5" 0 0 0 demo_server,
              THEN conjunct1, THEN mp, OF a]
  note p2 = select_on_count_limit[of 64 demo_env 7 "replicate 64 5" 0 0 0 demo_server,
              THEN conjunct2, THEN mp, OF b]
  from p2 obtain objs se w where
    "select_on demo_env 64 7 (replicate 64 5) 0 0 0 demo_server =
       select_evaluate demo_env (current_thread demo_server) 7
         (if sint (0::64 word) \<le> 0 then current_time demo_server - 0 else 0) objs se"
    "objs = map (\<lambda>h. the (handle_obj demo_env (process (thr demo_server (current_thread demo_server)))
             (ext demo_server) h)) (replicate 64 (5::nat))"
    "wait (thr se (current_thread demo_server)) = w # wait (thr demo_server (current_thread demo_server))"
    "queues w = objs" by blast
  then have "select_on demo_env 64 7 (replicate 64 5) 0 0 0 demo_server =
               select_evaluate demo_env 0 7 1000 (replicate 64 (Other_obj 5)) se \<and>
             wait (thr se 0) = [w] \<and> queues w = replicate 64 (Other_obj 5)"
    using m f by simp
  with p1 show ?thesis by blast
qed


subsection \<open>C7: the suspend count is bounded\<close>

text \<open>
  Claim C7. For a thread whose suspend count is \<^verbatim>\<open>MAXIMUM_SUSPEND_COUNT\<close> (127),
  \<^verbatim>\<open>suspend_thread\<close> returns that count, sets \<^verbatim>\<open>STATUS_SUSPEND_COUNT_EXCEEDED\<close> and changes
  nothing else, so the count stays. For a thread with a smaller count it returns the prior
  count, adds one to the count and sets no error. Therefore, as long as the operations of
  other files leave the counts alone, the count of every allocated thread stays between 0
  and 127 along any sequence of operations that starts in a state where this holds.
\<close>

theorem suspend_thread_bounded:
  "(suspend (thr s t) = MAXIMUM_SUSPEND_COUNT \<longrightarrow>
      suspend_thread env t s =
        (MAXIMUM_SUSPEND_COUNT, s\<lparr>error := STATUS_SUSPEND_COUNT_EXCEEDED\<rparr>))
   \<and> (suspend (thr s t) < MAXIMUM_SUSPEND_COUNT \<longrightarrow>
        fst (suspend_thread env t s) = suspend (thr s t) \<and>
        suspend (thr (snd (suspend_thread env t s)) t) = suspend (thr s t) + 1 \<and>
        error (snd (suspend_thread env t s)) = error s)
   \<and> (env_keeps Suspend_counts env \<and> suspend_ok s \<longrightarrow>
        suspend_ok (run_ops env ops s) \<and>
        (\<forall>u<next_thread (run_ops env ops s).
           suspend (thr (run_ops env ops s) u) \<le> 127))"
proof (intro conjI impI)
  assume "suspend (thr s t) = MAXIMUM_SUSPEND_COUNT"
  then show "suspend_thread env t s =
        (MAXIMUM_SUSPEND_COUNT, s\<lparr>error := STATUS_SUSPEND_COUNT_EXCEEDED\<rparr>)"
    by (simp add: suspend_thread_def set_error_def)
next
  assume a: "suspend (thr s t) < MAXIMUM_SUSPEND_COUNT"
  then show "fst (suspend_thread env t s) = suspend (thr s t)"
    by (simp add: suspend_thread_def Let_def)
  show "suspend (thr (snd (suspend_thread env t s)) t) = suspend (thr s t) + 1"
    using a by (simp add: suspend_thread_def Let_def stop_thread_def send_thread_signal_def
                          upd_thread_def)
  show "error (snd (suspend_thread env t s)) = error s"
    using a by (simp add: suspend_thread_def Let_def stop_thread_def send_thread_signal_def
                          upd_thread_def)
next
  assume a: "env_keeps Suspend_counts env \<and> suspend_ok s"
  then show ok: "suspend_ok (run_ops env ops s)" by (simp add: suspend_ok_run_ops)
  then show "\<forall>u<next_thread (run_ops env ops s). suspend (thr (run_ops env ops s) u) \<le> 127"
    by (simp add: suspend_ok_def MAXIMUM_SUSPEND_COUNT_def)
qed

theorem suspend_thread_bounded_witness:
  "suspend_thread demo_env 0 (upd_thread 0 (\<lambda>th. th\<lparr>suspend := 127\<rparr>) demo_server) =
     (127, (upd_thread 0 (\<lambda>th. th\<lparr>suspend := 127\<rparr>) demo_server)
             \<lparr>error := STATUS_SUSPEND_COUNT_EXCEEDED\<rparr>)
   \<and> fst (suspend_thread demo_env 0 demo_server) = 0
   \<and> suspend (thr (snd (suspend_thread demo_env 0 demo_server)) 0) = 1
   \<and> suspend_ok (run_ops demo_env
        [Op_new_thread True 0, Op_suspend_thread 1, Op_suspend_thread 0, Op_resume_thread 1]
        demo_server)"
proof -
  let ?s = "upd_thread 0 (\<lambda>th. th\<lparr>suspend := 127\<rparr>) demo_server"
  have h1: "suspend (thr ?s 0) = MAXIMUM_SUSPEND_COUNT"
    by (simp add: upd_thread_def MAXIMUM_SUSPEND_COUNT_def)
  have h2: "suspend (thr demo_server 0) < MAXIMUM_SUSPEND_COUNT"
    by (simp add: demo_defs MAXIMUM_SUSPEND_COUNT_def)
  have "suspend_ok demo_server"
    by (simp add: suspend_ok_def demo_server_def init_thread_structure_def
                  MAXIMUM_SUSPEND_COUNT_def)
  then have h3: "env_keeps Suspend_counts demo_env \<and> suspend_ok demo_server"
    using demo_env_keeps by blast
  have z: "suspend (thr demo_server 0) = 0" by (simp add: demo_defs)
  note a = suspend_thread_bounded[of ?s 0 demo_env, THEN conjunct1, THEN mp, OF h1]
  note b = suspend_thread_bounded[of demo_server 0 demo_env, THEN conjunct2, THEN conjunct1,
             THEN mp, OF h2]
  note c = suspend_thread_bounded[of demo_server 0 demo_env, THEN conjunct2, THEN conjunct2,
             THEN mp, OF h3]
  show ?thesis using a b c z by (simp add: MAXIMUM_SUSPEND_COUNT_def)
qed


subsection \<open>C8: killing a thread twice\<close>

text \<open>
  Claim C8. \<^verbatim>\<open>kill_thread\<close> on a thread that is already \<^verbatim>\<open>TERMINATED\<close> returns the state
  as it is. On a thread that is not, it leaves the thread \<^verbatim>\<open>TERMINATED\<close> with the current
  time as exit time (provided the subsystems called while the thread dies do not revive a
  terminated thread or change its exit time), so that a second \<^verbatim>\<open>kill_thread\<close>, violent or
  not, changes nothing: \<^verbatim>\<open>kill_thread\<close> is idempotent.
\<close>

theorem kill_thread_idempotent:
  assumes e: "env_keeps Dead_threads env" and t: "t < next_thread s"
  shows "(state (thr s t) = TERMINATED \<longrightarrow> kill_thread env t violent s = s)
       \<and> state (thr (kill_thread env t violent s) t) = TERMINATED
       \<and> (state (thr s t) \<noteq> TERMINATED \<longrightarrow>
            exit_time (thr (kill_thread env t violent s) t) = current_time s)
       \<and> kill_thread env t violent' (kill_thread env t violent s) = kill_thread env t violent s"
proof -
  have 1: "state (thr s t) = TERMINATED \<longrightarrow> kill_thread env t violent s = s"
    by (simp add: kill_thread_def)
  have 2: "state (thr (kill_thread env t violent s) t) = TERMINATED \<and>
           (state (thr s t) \<noteq> TERMINATED \<longrightarrow>
              exit_time (thr (kill_thread env t violent s) t) = current_time s)"
  proof (cases "state (thr s t) = TERMINATED")
    case True
    then show ?thesis by (simp add: kill_thread_def)
  next
    case False
    let ?s1 = "upd_thread t (\<lambda>th. th\<lparr>state := TERMINATED, exit_time := current_time s\<rparr>) s"
    have "keeps Dead_threads ?s1 (kill_thread env t violent s)"
      using e False by (rule kill_thread_rest)
    moreover have "t < next_thread ?s1" "state (thr ?s1 t) = TERMINATED"
      "exit_time (thr ?s1 t) = current_time s"
      using t by (simp_all add: upd_thread_def)
    ultimately show ?thesis unfolding keeps_def aspect.case by metis
  qed
  have 3: "kill_thread env t violent' (kill_thread env t violent s) = kill_thread env t violent s"
    using 2 by (simp add: kill_thread_def[of env t violent' "kill_thread env t violent s"])
  from 1 2 3 show ?thesis by blast
qed


theorem kill_thread_idempotent_witness:
  "state (thr (kill_thread demo_env 0 True (demo_waiting 0 [Other_obj 5])) 0) = TERMINATED
   \<and> exit_time (thr (kill_thread demo_env 0 True (demo_waiting 0 [Other_obj 5])) 0) = 1000
   \<and> kill_thread demo_env 0 False (kill_thread demo_env 0 True (demo_waiting 0 [Other_obj 5])) =
       kill_thread demo_env 0 True (demo_waiting 0 [Other_obj 5])"
proof -
  let ?s = "demo_waiting 0 [Other_obj 5]"
  have t: "0 < next_thread ?s" by (simp add: demo_defs)
  have r: "state (thr ?s 0) \<noteq> TERMINATED" by (simp add: demo_defs)
  have c: "current_time ?s = 1000" by (simp add: demo_defs)
  note k = kill_thread_idempotent[OF demo_env_keeps t, of True False]
  from k r c show ?thesis by simp
qed


subsection \<open>C9: the executed flag is monotonic\<close>

text \<open>
  Claim C9. \<^verbatim>\<open>create_apc\<close> hands out an APC that is not executed. Provided the operations
  of other files never reset the flag, an allocated APC that is executed is still executed
  after any sequence of operations (posting, cancellation, the select handler with its
  storing of the previous result and its dequeue loop, the clearing of the queues when a
  thread dies, ...), and therefore an APC object that is signaled stays signaled. The last
  five conjuncts name the single operations the claim lists: each one keeps the flags that
  are set.
\<close>

theorem apc_executed_monotonic:
  assumes e: "env_keeps Executed_flags env"
  shows "(\<forall>a s1. create_apc env own call_data s = (Some a, s1) \<longrightarrow>
            a = next_apc s \<and> a < next_apc s1 \<and> \<not> executed (apcs s1 a))
       \<and> (\<forall>a<next_apc s. executed (apcs s a) \<longrightarrow> executed (apcs (run_ops env ops s) a))
       \<and> (\<forall>a<next_apc s. \<forall>t t'. ops_signaled env (Apc_obj a) t s \<longrightarrow>
             ops_signaled env (Apc_obj a) t' (run_ops env ops s))
       \<and> keeps Executed_flags s (thread_cancel_apc env u own' type s)
       \<and> keeps Executed_flags s (clear_apc_queue env u q s)
       \<and> keeps Executed_flags s (snd (select_store_result env prev_apc res s))
       \<and> keeps Executed_flags s (snd (select_dequeue env u flgs s))
       \<and> (\<forall>r s'. queue_apc env proc thread apc s = Some (r, s') \<longrightarrow> keeps Executed_flags s s')"
proof -
  have 1: "\<forall>a s1. create_apc env own call_data s = (Some a, s1) \<longrightarrow>
            a = next_apc s \<and> a < next_apc s1 \<and> \<not> executed (apcs s1 a)"
    by (auto simp: create_apc_def Let_def grab_object_def split: if_splits option.splits)
  have k: "keeps Executed_flags s (run_ops env ops s)"
    using e by (intro keeps_run_ops) simp_all
  then have 2: "\<forall>a<next_apc s. executed (apcs s a) \<longrightarrow> executed (apcs (run_ops env ops s) a)"
    by (simp add: keeps_def)
  then have 3: "\<forall>a<next_apc s. \<forall>t t'. ops_signaled env (Apc_obj a) t s \<longrightarrow>
             ops_signaled env (Apc_obj a) t' (run_ops env ops s)"
    by (simp add: ops_signaled_def thread_apc_signaled_def)
  have 4: "\<forall>r s'. queue_apc env proc thread apc s = Some (r, s') \<longrightarrow> keeps Executed_flags s s'"
    using keeps_queue_apc by blast
  have 5: "keeps Executed_flags s (thread_cancel_apc env u own' type s)"
    by (rule keeps_thread_cancel_apc)
  have 6: "keeps Executed_flags s (clear_apc_queue env u q s)"
    by (rule keeps_clear_apc_queue)
  have 7: "keeps Executed_flags s (snd (select_store_result env prev_apc res s))"
    using e by (rule keeps_select_store_result)
  have 8: "keeps Executed_flags s (snd (select_dequeue env u flgs s))"
    using e by (rule keeps_select_dequeue)
  show ?thesis by (intro conjI 1 2 3 4 5 6 7 8)
qed

theorem apc_executed_monotonic_witness:
  "executed (apcs (run_ops demo_env
      [Op_thread_queue_apc (Some 0) (Some (Other_obj 9)) \<lparr>call_type = APC_USER, call_args = 0\<rparr>,
       Op_thread_queue_apc (Some 0) (Some (Other_obj 9)) \<lparr>call_type = APC_USER, call_args = 1\<rparr>,
       Op_select \<lparr>req_cookie = 3, req_flags = SELECT_ALERTABLE, req_timeout = 0, req_signal = 0,
                  req_prev_apc = 0, req_result = Some \<lparr>result_type = APC_NONE, result_data = 0\<rparr>,
                  req_handles = []\<rparr>,
       Op_kill_thread 0 False]
      demo_executed) 0)"
proof -
  have a: "0 < next_apc demo_executed" by (simp add: demo_executed_def)
  have b: "executed (apcs demo_executed 0)" by (simp add: demo_executed_def upd_apc_def)
  note m = apc_executed_monotonic[OF demo_env_keeps, THEN conjunct2, THEN conjunct1, rule_format,
             OF a b]
  show ?thesis by (rule m)
qed


subsection \<open>C10: a thread as a waitable object\<close>

text \<open>
  Claim C10. \<^verbatim>\<open>thread_signaled\<close> holds exactly when the state of the thread is
  \<^verbatim>\<open>TERMINATED\<close>, and so does the \<^verbatim>\<open>signaled\<close> operation on a thread object. Hence a frame
  (of at most \<^verbatim>\<open>MAXIMUM_WAIT_OBJECTS\<close> entries, as \<^verbatim>\<open>select_on\<close> builds them) whose entry
  \<open>i\<close> is a running thread is never reported satisfied by that entry: without
  \<^verbatim>\<open>SELECT_ALL\<close> the status is neither \<open>i\<close> nor \<open>i + STATUS_ABANDONED_WAIT_0\<close>, with
  \<^verbatim>\<open>SELECT_ALL\<close> it is neither 0 nor \<^verbatim>\<open>STATUS_ABANDONED_WAIT_0\<close>.
\<close>

theorem thread_signaled_iff_terminated:
  "(thread_signaled th \<longleftrightarrow> state th = TERMINATED)
   \<and> (ops_signaled env (Thread_obj u) t s \<longleftrightarrow> state (thr s u) = TERMINATED)
   \<and> (wait (thr s t) = w # ws \<and> length (queues w) \<le> MAXIMUM_WAIT_OBJECTS \<and>
      i < length (queues w) \<and> queues w ! i = Thread_obj u \<and> state (thr s u) = RUNNING \<and>
      check_wait env t s = Some (r, s') \<longrightarrow>
        (if flags w AND SELECT_ALL \<noteq> 0 then r \<noteq> 0 \<and> r \<noteq> STATUS_ABANDONED_WAIT_0
         else r \<noteq> int i \<and> r \<noteq> int i + STATUS_ABANDONED_WAIT_0))"
proof (intro conjI impI)
  show "thread_signaled th \<longleftrightarrow> state th = TERMINATED" by (simp add: thread_signaled_def)
  show "ops_signaled env (Thread_obj u) t s \<longleftrightarrow> state (thr s u) = TERMINATED"
    by (simp add: ops_signaled_def thread_signaled_def)
next
  assume a: "wait (thr s t) = w # ws \<and> length (queues w) \<le> MAXIMUM_WAIT_OBJECTS \<and>
      i < length (queues w) \<and> queues w ! i = Thread_obj u \<and> state (thr s u) = RUNNING \<and>
      check_wait env t s = Some (r, s')"
  then have frame: "wait (thr s t) = w # ws" and len: "length (queues w) \<le> 64"
    and i: "i < length (queues w)" and obj: "queues w ! i = Thread_obj u"
    and run: "state (thr s u) = RUNNING" and cw: "check_wait env t s = Some (r, s')"
    by (simp_all add: MAXIMUM_WAIT_OBJECTS_def)
  have nsig: "\<not> ops_signaled env (queues w ! i) t s"
    using obj run by (simp add: ops_signaled_def thread_signaled_def)
  have mem: "queues w ! i \<in> set (queues w)" using i by simp
  have oc: "other_checks t w s = 192 \<or> other_checks t w s = 258 \<or> other_checks t w s = - 1"
    using other_checks_cases[of t w s] by (simp add: STATUS_USER_APC_def STATUS_TIMEOUT_def)
  show "if flags w AND SELECT_ALL \<noteq> 0 then r \<noteq> 0 \<and> r \<noteq> STATUS_ABANDONED_WAIT_0
         else r \<noteq> int i \<and> r \<noteq> int i + STATUS_ABANDONED_WAIT_0"
  proof (cases "flags w AND SELECT_ALL \<noteq> 0")
    case True
    have "all_not_ok env t (queues w) False s" using nsig mem by (auto simp: all_not_ok_eq)
    with True frame cw oc show ?thesis
      by (auto simp: check_wait_def STATUS_USER_APC_def STATUS_ABANDONED_WAIT_0_def
               split: if_splits)
  next
    case False
    have scan: "scan_any env t 0 (queues w) s = Some (r', s'') \<Longrightarrow>
        r' \<noteq> int i \<and> r' \<noteq> int i + STATUS_ABANDONED_WAIT_0" for r' s''
    proof -
      assume "scan_any env t 0 (queues w) s = Some (r', s'')"
      from scan_any_Some[OF this] obtain k where k: "k < length (queues w)"
        "ops_signaled env (queues w ! k) t s"
        "r' = int (0 + k) \<or> r' = int (0 + k) + STATUS_ABANDONED_WAIT_0" by blast
      have "k \<noteq> i" using k(2) nsig by auto
      with k(1,3) i len show ?thesis by (auto simp: STATUS_ABANDONED_WAIT_0_def)
    qed
    from False frame cw oc i len scan show ?thesis
      by (auto simp: check_wait_def STATUS_USER_APC_def STATUS_ABANDONED_WAIT_0_def
               split: if_splits option.splits)
  qed
qed

theorem thread_signaled_iff_terminated_witness:
  "\<not> thread_signaled (thr (demo_waiting 0 [Thread_obj 4]) 4)
   \<and> \<not> (\<exists>s'. check_wait demo_env 0 (demo_waiting 0 [Thread_obj 4]) = Some (0, s'))
   \<and> \<not> (\<exists>s'. check_wait demo_env 0 (demo_waiting 0 [Thread_obj 4]) =
                  Some (STATUS_ABANDONED_WAIT_0, s'))"
proof -
  let ?s = "demo_waiting 0 [Thread_obj 4]"
  let ?w = "demo_wait 0 [Thread_obj 4]"
  have run: "state (thr ?s 4) = RUNNING" by (simp add: demo_defs)
  have pre: "wait (thr ?s 0) = ?w # [] \<and> length (queues ?w) \<le> MAXIMUM_WAIT_OBJECTS \<and>
      0 < length (queues ?w) \<and> queues ?w ! 0 = Thread_obj 4 \<and> state (thr ?s 4) = RUNNING"
    by (simp add: demo_defs MAXIMUM_WAIT_OBJECTS_def)
  have fl: "flags ?w AND SELECT_ALL = 0" by (simp add: demo_defs)
  note r = thread_signaled_iff_terminated[of "thr ?s 4" demo_env 4 0 ?s ?w "[]" 0]
  have a: "\<not> thread_signaled (thr ?s 4)" using r run by simp
  have b: "check_wait demo_env 0 ?s = Some (x, s') \<Longrightarrow> x \<noteq> 0 \<and> x \<noteq> STATUS_ABANDONED_WAIT_0"
    for x s'
    using thread_signaled_iff_terminated[of "thr ?s 4" demo_env 4 0 ?s ?w "[]" 0 x s'] pre fl
    by simp
  from a b show ?thesis by blast
qed

end
